theory Spec2Isabelle
  imports Complex_Main
begin

section \<open>Multi-player bandit strategies (\<^verbatim>\<open>src/strategies.py\<close>)\<close>

text \<open>
  A shallow embedding of the players of \<^verbatim>\<open>src/strategies.py\<close>.

  \<^item> numpy's float arrays are lists; a float is a \<open>real\<close> (rounding and NaN are not
    modelled), and a draw count, which only ever grows from zero in steps of one, is a
    \<open>nat\<close>.
  \<^item> \<open>my_arm\<close> is \<open>None\<close> after \<open>clear()\<close> and \<open>Some a\<close> once an arm is selected.
  \<^item> Every raise of the source is a value \<open>Inl e\<close>; the state a raising call leaves
    behind is not modelled.
  \<^item> A random draw is a finite distribution, written as the list of its equally likely
    outcomes (one outcome per position): \<open>np.random.choice(a)\<close> picks a position of
    \<open>a\<close> uniformly, so its distribution is \<open>a\<close> itself. A method that draws returns the
    list of the equally likely states it may leave the player in.
  \<^item> The index policy (\<open>self.policy.compute_index(self)\<close>) and numpy's \<open>argsort\<close> are
    external: both are parameters (\<open>ci\<close> and \<open>asort\<close>), and the theorems assume only
    their contracts.
\<close>

subsection \<open>Data\<close>

datatype error = ValueError | IndexError | NotImplementedError | AssertionError

type_synonym 'a dist = "'a list"

record 'p player =
  nb_arms :: nat
  nb_players :: nat
  policy :: 'p
  nb_draws :: "nat list"
  cum_rewards :: "real list"
  t :: nat
  best_arms :: "real list"
  ucbs :: "real list"
  my_arm :: "nat option"
  has_collided :: bool
  is_on_chair :: bool

text \<open>The five classes of the file.\<close>

datatype player_class =
  Player | PlayerRandTopOld | PlayerRandTop | PlayerMCTop | PlayerSelfish

text \<open>What a caller may pass as the \<open>strategy\<close> argument of the factory: one of the
  classes above, or a class that does not derive from \<open>Player\<close>.\<close>

datatype class_arg = PlayerClass player_class | OtherClass

subsection \<open>Library functions\<close>

text \<open>\<open>np.random.choice(a)\<close> on a one-dimensional array: a uniform position of \<open>a\<close>;
  raises \<open>ValueError\<close> when \<open>a\<close> is empty.\<close>

definition choice :: "'a list \<Rightarrow> error + 'a dist" where
  "choice a = (if a = [] then Inl ValueError else Inr a)"

text \<open>Modelled from the spec: \<open>randmax\<close> of \<open>src/utils.py\<close>, which is not among the
  sources. The spec's ArgmaxTieBreak: "given a vector of reals, returns an index attaining
  the maximum, chosen uniformly at random among all indices attaining it". An empty vector
  has no maximum; the draw then fails.\<close>

definition randmax :: "real list \<Rightarrow> error + nat dist" where
  "randmax vs =
     (if vs = [] then Inl ValueError
      else Inr (filter (\<lambda>i. vs ! i = Max (set vs)) [0..<length vs]))"

text \<open>The elementwise \<open>&\<close> of two one-dimensional boolean arrays, with numpy's
  broadcasting: equal lengths, or one of the two of length one.\<close>

definition broadcast_and :: "bool list \<Rightarrow> bool list \<Rightarrow> error + bool list" where
  "broadcast_and xs ys =
     (if length xs = length ys then Inr (map (\<lambda>(x, y). x \<and> y) (zip xs ys))
      else if length xs = 1 then Inr (map (\<lambda>y. hd xs \<and> y) ys)
      else if length ys = 1 then Inr (map (\<lambda>x. x \<and> hd ys) xs)
      else Inl ValueError)"

text \<open>The contract of \<open>np.argsort\<close>: \<open>idx\<close> lists every position of \<open>xs\<close> once, in
  ascending order of the values. The order among equal values is left open (numpy's
  default sort is not stable).\<close>

definition is_argsort :: "nat list \<Rightarrow> real list \<Rightarrow> bool" where
  "is_argsort idx xs \<longleftrightarrow>
     distinct idx \<and> length idx = length xs \<and> list_all (\<lambda>i. i < length xs) idx \<and>
     sorted (map (\<lambda>i. xs ! i) idx)"

text \<open>One function that meets the contract: the stable sort of the positions by value.\<close>

definition argsort_stable :: "real list \<Rightarrow> nat list" where
  "argsort_stable xs = sort_key (\<lambda>i. xs ! i) [0..<length xs]"

subsection \<open>\<open>Player\<close>\<close>

definition clear :: "'p player \<Rightarrow> 'p player" where
  "clear s = s\<lparr>nb_draws := replicate (nb_arms s) 0,
               cum_rewards := replicate (nb_arms s) 0,
               t := 0,
               best_arms := replicate (nb_players s) 0,
               ucbs := replicate (nb_arms s) 0,
               my_arm := None,
               has_collided := False,
               is_on_chair := False\<rparr>"

text \<open>\<open>Player.__init__\<close>: the three arguments are stored, then \<open>clear()\<close> sets every
  other attribute.\<close>

definition init :: "nat \<Rightarrow> nat \<Rightarrow> 'p \<Rightarrow> 'p player" where
  "init K M pol =
     clear \<lparr>nb_arms = K, nb_players = M, policy = pol, nb_draws = [], cum_rewards = [],
            t = 0, best_arms = [], ucbs = [], my_arm = None, has_collided = False,
            is_on_chair = False\<rparr>"

text \<open>\<open>Player.receive_reward\<close>. An array indexed by \<open>None\<close> is the whole array with a new
  leading axis, so \<open>a[None] += x\<close> adds \<open>x\<close> to every entry; indexed by an integer out of
  range it raises \<open>IndexError\<close>.\<close>

definition receive_reward :: "'p player \<Rightarrow> real \<Rightarrow> bool \<Rightarrow> error + 'p player" where
  "receive_reward s reward collision =
     (case my_arm s of
        None \<Rightarrow>
          Inr (s\<lparr>cum_rewards := map (\<lambda>c. c + reward) (cum_rewards s),
                 nb_draws := map (\<lambda>n. n + 1) (nb_draws s),
                 has_collided := collision,
                 t := t s + 1\<rparr>)
      | Some a \<Rightarrow>
          if a < length (cum_rewards s) \<and> a < length (nb_draws s)
          then Inr (s\<lparr>cum_rewards := (cum_rewards s)[a := cum_rewards s ! a + reward],
                      nb_draws := (nb_draws s)[a := nb_draws s ! a + 1],
                      has_collided := collision,
                      t := t s + 1\<rparr>)
          else Inl IndexError)"

text \<open>\<open>PlayerSelfish.receive_reward\<close>.\<close>

definition Selfish_receive_reward :: "'p player \<Rightarrow> real \<Rightarrow> bool \<Rightarrow> error + 'p player" where
  "Selfish_receive_reward s reward collision =
     (let reward_no_sensing = (if collision then 0 else reward)
      in receive_reward s reward_no_sensing False)"

subsection \<open>The pieces shared by the \<open>choose_arm_to_play\<close> methods\<close>

text \<open>\<open>np.any(self.nb_draws == 0)\<close>.\<close>

definition any_zero :: "nat list \<Rightarrow> bool" where
  "any_zero ds = list_ex (\<lambda>d. d = 0) ds"

text \<open>The warm-start lines: \<open>self.my_arm = randmax(-self.nb_draws); return self.my_arm\<close>.\<close>

definition warm_start :: "'p player \<Rightarrow> error + 'p player dist" where
  "warm_start s =
     (case randmax (map (\<lambda>d. - real d) (nb_draws s)) of
        Inl e \<Rightarrow> Inl e
      | Inr arms \<Rightarrow> Inr (map (\<lambda>a. s\<lparr>my_arm := Some a\<rparr>) arms))"

text \<open>\<open>np.argsort(ucbs_new)[::-1][:self.nb_players]\<close>.\<close>

definition top_arms :: "(real list \<Rightarrow> nat list) \<Rightarrow> nat \<Rightarrow> real list \<Rightarrow> nat list" where
  "top_arms asort M ucbs_new = take M (rev (asort ucbs_new))"

text \<open>\<open>self.my_arm not in best_arms\<close>. \<open>None\<close> equals no entry of an integer array.\<close>

definition not_in :: "nat option \<Rightarrow> nat list \<Rightarrow> bool" where
  "not_in m best = (case m of None \<Rightarrow> True | Some a \<Rightarrow> a \<notin> set best)"

text \<open>\<open>ucbs_new[best_arms[-1]]\<close>.\<close>

definition min_ucb_of_best_arms :: "real list \<Rightarrow> nat list \<Rightarrow> error + real" where
  "min_ucb_of_best_arms ucbs_new best =
     (if best = [] then Inl IndexError
      else if last best < length ucbs_new then Inr (ucbs_new ! last best)
      else Inl IndexError)"

text \<open>
  \<open>np.where((self.ucbs <= self.ucbs[self.my_arm]) & (ucbs_new >= min_ucb_of_best_arms))[0]\<close>.
  With an integer \<open>my_arm\<close> the mask is one-dimensional and the result lists the
  positions where it holds, in increasing order. With \<open>my_arm = None\<close>, \<open>self.ucbs[None]\<close>
  has shape \<open>(1, K)\<close>, the first comparison holds everywhere, the mask has one row, and
  \<open>[0]\<close> of \<open>np.where\<close> is the row number, \<open>0\<close>, of every position where the mask holds.
\<close>

definition new_arms_to_choose ::
  "real list \<Rightarrow> nat option \<Rightarrow> real list \<Rightarrow> real \<Rightarrow> error + nat list" where
  "new_arms_to_choose old m ucbs_new mn =
     (case m of
        Some a \<Rightarrow>
          if a < length old
          then (case broadcast_and (map (\<lambda>u. u \<le> old ! a) old) (map (\<lambda>u. u \<ge> mn) ucbs_new) of
                  Inl e \<Rightarrow> Inl e
                | Inr msk \<Rightarrow> Inr (filter (\<lambda>i. msk ! i) [0..<length msk]))
          else Inl IndexError
      | None \<Rightarrow>
          (case broadcast_and (map (\<lambda>u. True) old) (map (\<lambda>u. u \<ge> mn) ucbs_new) of
             Inl e \<Rightarrow> Inl e
           | Inr msk \<Rightarrow> Inr (replicate (length (filter (\<lambda>b. b) msk)) 0)))"

text \<open>The two lines every variant but Selfish runs to find where it may go when it leaves
  its arm: the threshold, then the candidates.\<close>

definition filtered_candidates :: "'p player \<Rightarrow> real list \<Rightarrow> nat list \<Rightarrow> error + nat list" where
  "filtered_candidates s ucbs_new best =
     (case min_ucb_of_best_arms ucbs_new best of
        Inl e \<Rightarrow> Inl e
      | Inr mn \<Rightarrow> new_arms_to_choose (ucbs s) (my_arm s) ucbs_new mn)"

text \<open>The third line: \<open>np.random.choice(new_arms_to_choose)\<close>.\<close>

definition choose_filtered :: "'p player \<Rightarrow> real list \<Rightarrow> nat list \<Rightarrow> error + nat dist" where
  "choose_filtered s ucbs_new best =
     (case filtered_candidates s ucbs_new best of
        Inl e \<Rightarrow> Inl e
      | Inr cands \<Rightarrow> choice cands)"

subsection \<open>The four variants\<close>

definition RandTopOld_choose_arm_to_play ::
  "('p \<Rightarrow> 'p player \<Rightarrow> real list) \<Rightarrow> (real list \<Rightarrow> nat list) \<Rightarrow> 'p player \<Rightarrow>
   error + 'p player dist" where
  "RandTopOld_choose_arm_to_play ci asort s =
     (if any_zero (nb_draws s) then warm_start s
      else
        let ucbs_new = ci (policy s) s;
            best = top_arms asort (nb_players s) ucbs_new
        in if not_in (my_arm s) best
           then (case (if has_collided s then choice best
                       else choose_filtered s ucbs_new best) of
                   Inl e \<Rightarrow> Inl e
                 | Inr arms \<Rightarrow> Inr (map (\<lambda>a. s\<lparr>my_arm := Some a, ucbs := ucbs_new\<rparr>) arms))
           else Inr [s\<lparr>ucbs := ucbs_new\<rparr>])"

definition RandTop_choose_arm_to_play ::
  "('p \<Rightarrow> 'p player \<Rightarrow> real list) \<Rightarrow> (real list \<Rightarrow> nat list) \<Rightarrow> 'p player \<Rightarrow>
   error + 'p player dist" where
  "RandTop_choose_arm_to_play ci asort s =
     (if any_zero (nb_draws s) then warm_start s
      else
        let ucbs_new = ci (policy s) s;
            best = top_arms asort (nb_players s) ucbs_new
        in if not_in (my_arm s) best
           then (case choose_filtered s ucbs_new best of
                   Inl e \<Rightarrow> Inl e
                 | Inr arms \<Rightarrow> Inr (map (\<lambda>a. s\<lparr>my_arm := Some a, ucbs := ucbs_new\<rparr>) arms))
           else if has_collided s
           then (case choice best of
                   Inl e \<Rightarrow> Inl e
                 | Inr arms \<Rightarrow> Inr (map (\<lambda>a. s\<lparr>my_arm := Some a, ucbs := ucbs_new\<rparr>) arms))
           else Inr [s\<lparr>ucbs := ucbs_new\<rparr>])"

definition MCTop_choose_arm_to_play ::
  "('p \<Rightarrow> 'p player \<Rightarrow> real list) \<Rightarrow> (real list \<Rightarrow> nat list) \<Rightarrow> 'p player \<Rightarrow>
   error + 'p player dist" where
  "MCTop_choose_arm_to_play ci asort s =
     (if any_zero (nb_draws s) then warm_start s
      else
        let ucbs_new = ci (policy s) s;
            best = top_arms asort (nb_players s) ucbs_new
        in if not_in (my_arm s) best
           then (case choose_filtered s ucbs_new best of
                   Inl e \<Rightarrow> Inl e
                 | Inr arms \<Rightarrow>
                     Inr (map (\<lambda>a. s\<lparr>my_arm := Some a, is_on_chair := False,
                                     ucbs := ucbs_new\<rparr>) arms))
           else if has_collided s \<and> \<not> is_on_chair s
           then (case choice best of
                   Inl e \<Rightarrow> Inl e
                 | Inr arms \<Rightarrow>
                     Inr (map (\<lambda>a. s\<lparr>my_arm := Some a, is_on_chair := False,
                                     ucbs := ucbs_new\<rparr>) arms))
           else Inr [s\<lparr>is_on_chair := True, ucbs := ucbs_new\<rparr>])"

text \<open>Selfish sets \<open>my_arm\<close> first and asks the policy afterwards, so the policy sees the
  player with its new arm.\<close>

definition Selfish_choose_arm_to_play ::
  "('p \<Rightarrow> 'p player \<Rightarrow> real list) \<Rightarrow> 'p player \<Rightarrow> error + 'p player dist" where
  "Selfish_choose_arm_to_play ci s =
     (if any_zero (nb_draws s) then warm_start s
      else
        (case randmax (ucbs s) of
           Inl e \<Rightarrow> Inl e
         | Inr arms \<Rightarrow>
             Inr (map (\<lambda>a. let s' = s\<lparr>my_arm := Some a\<rparr>
                            in s'\<lparr>ucbs := ci (policy s') s'\<rparr>) arms)))"

text \<open>The method, by the class of the instance. The base class raises.\<close>

fun choose_arm_to_play ::
  "player_class \<Rightarrow> ('p \<Rightarrow> 'p player \<Rightarrow> real list) \<Rightarrow> (real list \<Rightarrow> nat list) \<Rightarrow>
   'p player \<Rightarrow> error + 'p player dist" where
  "choose_arm_to_play Player ci asort s = Inl NotImplementedError"
| "choose_arm_to_play PlayerRandTopOld ci asort s = RandTopOld_choose_arm_to_play ci asort s"
| "choose_arm_to_play PlayerRandTop ci asort s = RandTop_choose_arm_to_play ci asort s"
| "choose_arm_to_play PlayerMCTop ci asort s = MCTop_choose_arm_to_play ci asort s"
| "choose_arm_to_play PlayerSelfish ci asort s = Selfish_choose_arm_to_play ci s"

subsection \<open>The factory\<close>

text \<open>\<open>issubclass(strategy, Player)\<close>: a class is a subclass of itself.\<close>

fun issubclass_Player :: "class_arg \<Rightarrow> bool" where
  "issubclass_Player (PlayerClass c) = True"
| "issubclass_Player OtherClass = False"

text \<open>\<open>strategy(strategy, nb_arms, nb_players, policy)\<close>: an instance is its class and its
  attributes.\<close>

fun strategy ::
  "class_arg \<Rightarrow> nat \<Rightarrow> nat \<Rightarrow> 'p \<Rightarrow> error + (player_class \<times> 'p player) list" where
  "strategy (PlayerClass c) K M pol =
     (if issubclass_Player (PlayerClass c)
      then Inr (map (\<lambda>_. (c, init K M pol)) [0..<M])
      else Inl AssertionError)"
| "strategy OtherClass K M pol = Inl AssertionError"

subsection \<open>The states a player can reach\<close>

text \<open>\<open>receive_reward\<close>, by the class of the instance: only PlayerSelfish overrides it.\<close>

fun receive_reward_of ::
  "player_class \<Rightarrow> 'p player \<Rightarrow> real \<Rightarrow> bool \<Rightarrow> error + 'p player" where
  "receive_reward_of PlayerSelfish s reward collision = Selfish_receive_reward s reward collision"
| "receive_reward_of c s reward collision = receive_reward s reward collision"

text \<open>A player of class \<open>c\<close> is created by the constructor and then driven by calls of its
  methods, in any order and with any outcome of its draws.\<close>

inductive reachable ::
  "player_class \<Rightarrow> ('p \<Rightarrow> 'p player \<Rightarrow> real list) \<Rightarrow> (real list \<Rightarrow> nat list) \<Rightarrow>
   nat \<Rightarrow> nat \<Rightarrow> 'p \<Rightarrow> 'p player \<Rightarrow> bool"
  for c ci asort K M pol where
  created: "reachable c ci asort K M pol (init K M pol)"
| chosen: "reachable c ci asort K M pol s \<Longrightarrow> choose_arm_to_play c ci asort s = Inr outs \<Longrightarrow>
           s' \<in> set outs \<Longrightarrow> reachable c ci asort K M pol s'"
| rewarded: "reachable c ci asort K M pol s \<Longrightarrow> receive_reward_of c s reward collision = Inr s' \<Longrightarrow>
             reachable c ci asort K M pol s'"
| cleared: "reachable c ci asort K M pol s \<Longrightarrow> reachable c ci asort K M pol (clear s)"

text \<open>The states at the start of a round when the environment follows the protocol: after
  construction, every \<open>choose_arm_to_play\<close> is followed by one \<open>receive_reward\<close>.\<close>

inductive round_start ::
  "player_class \<Rightarrow> ('p \<Rightarrow> 'p player \<Rightarrow> real list) \<Rightarrow> (real list \<Rightarrow> nat list) \<Rightarrow>
   nat \<Rightarrow> nat \<Rightarrow> 'p \<Rightarrow> 'p player \<Rightarrow> bool"
  for c ci asort K M pol where
  fresh: "round_start c ci asort K M pol (init K M pol)"
| played: "round_start c ci asort K M pol s \<Longrightarrow> choose_arm_to_play c ci asort s = Inr outs \<Longrightarrow>
           s' \<in> set outs \<Longrightarrow> receive_reward_of c s' reward collision = Inr s'' \<Longrightarrow>
           round_start c ci asort K M pol s''"

text \<open>Fewer than \<open>nb_players\<close> arms have an index above the current arm's: by its value,
  the current arm is among the top M of the stored indices.\<close>

definition settled :: "'p player \<Rightarrow> bool" where
  "settled s \<longleftrightarrow>
     (\<exists>a. my_arm s = Some a \<and> a < nb_arms s \<and>
          card {i. i < nb_arms s \<and> ucbs s ! a < ucbs s ! i} < nb_players s)"

subsection \<open>Distributions\<close>

text \<open>The probability of an outcome: its share of the positions of the list. A
  distribution is uniform on a set when every member has the same probability and
  nothing else has any.\<close>

definition pr :: "'a dist \<Rightarrow> 'a \<Rightarrow> real" where
  "pr d x = real (count_list d x) / real (length d)"

definition uniform_on :: "'a dist \<Rightarrow> 'a set \<Rightarrow> bool" where
  "uniform_on d X \<longleftrightarrow> d \<noteq> [] \<and> (\<forall>x. pr d x = (if x \<in> X then 1 / real (card X) else 0))"

subsection \<open>Notions of the specification\<close>

text \<open>The candidate set in the specification's words: the arms whose old index is at most
  the current arm's old index, intersected with the arms whose new index is at least the
  smallest new index of the top-M set.\<close>

definition candidate_set :: "real list \<Rightarrow> real list \<Rightarrow> nat \<Rightarrow> nat set \<Rightarrow> nat set" where
  "candidate_set old new my topM =
     {a. a < length old \<and> old ! a \<le> old ! my}
     \<inter> {a. a < length new \<and> new ! a \<ge> Min ((\<lambda>b. new ! b) ` topM)}"

text \<open>The states the claims are about: the configuration has at least one player and no
  more players than arms, every array has one entry per arm, and the arm, once selected,
  is an arm index.\<close>

definition well_formed :: "'p player \<Rightarrow> bool" where
  "well_formed s \<longleftrightarrow>
     0 < nb_players s \<and> nb_players s \<le> nb_arms s \<and>
     length (nb_draws s) = nb_arms s \<and> length (cum_rewards s) = nb_arms s \<and>
     length (ucbs s) = nb_arms s \<and>
     (case my_arm s of None \<Rightarrow> True | Some a \<Rightarrow> a < nb_arms s)"

text \<open>The contracts of the two external functions at the call the player makes: the policy
  returns one index per arm, and the sort result is a sort of it.\<close>

definition contracts ::
  "('p \<Rightarrow> 'p player \<Rightarrow> real list) \<Rightarrow> (real list \<Rightarrow> nat list) \<Rightarrow> 'p player \<Rightarrow> bool" where
  "contracts ci asort s \<longleftrightarrow>
     length (ci (policy s) s) = nb_arms s \<and>
     is_argsort (asort (ci (policy s) s)) (ci (policy s) s)"

subsection \<open>Example players\<close>

text \<open>Three arms, two players; arm 0 was drawn once, arms 1 and 2 never.\<close>

definition example_draws :: "unit player" where
  "example_draws = (init 3 2 ())\<lparr>nb_draws := [1, 0, 0], my_arm := Some 0\<rparr>"

text \<open>A policy that answers \<open>[0, 5, 6]\<close>, so that the two best arms are 2 and 1, and three
  players past warm start: one whose arm 0 has left the top two and has candidates to go to,
  one whose arm 0 has left the top two and has none, one sitting on arm 2 after a
  collision.\<close>

definition example_index :: "unit \<Rightarrow> unit player \<Rightarrow> real list" where
  "example_index p s = [0, 5, 6]"

definition example_switch :: "unit player" where
  "example_switch = (init 3 2 ())\<lparr>nb_draws := [1, 1, 1], ucbs := [3, 2, 1], my_arm := Some 0\<rparr>"

definition example_empty :: "unit player" where
  "example_empty = (init 3 2 ())\<lparr>nb_draws := [1, 1, 1], ucbs := [1, 2, 3], my_arm := Some 0\<rparr>"

definition example_seated :: "unit player" where
  "example_seated = (init 3 2 ())\<lparr>nb_draws := [1, 1, 1], ucbs := [1, 2, 3], my_arm := Some 2,
                                  has_collided := True\<rparr>"

text \<open>A policy defined on every player: arm \<open>i\<close> has index \<open>i\<close>.\<close>

definition index_by_position :: "unit \<Rightarrow> unit player \<Rightarrow> real list" where
  "index_by_position p s = map real [0..<nb_arms s]"

text \<open>A player that was given a reward before it ever chose an arm, and the same player
  after its first choice: on arm 0, with the indices \<open>[0, 1, 2]\<close> of the policy above.\<close>

definition example_unchosen :: "unit player" where
  "example_unchosen = (init 3 2 ())\<lparr>cum_rewards := [5, 5, 5], nb_draws := [1, 1, 1], t := 1\<rparr>"

definition example_astray :: "unit player" where
  "example_astray = example_unchosen\<lparr>my_arm := Some 0, ucbs := [0, 1, 2]\<rparr>"

section \<open>Properties\<close>

subsection \<open>Distributions\<close>

lemma count_list_distinct: "distinct d \<Longrightarrow> count_list d x = (if x \<in> set d then 1 else 0)"
  by (induction d) auto

lemma uniform_on_distinct:
  assumes "d \<noteq> []" and "distinct d"
  shows "uniform_on d (set d)"
  unfolding uniform_on_def pr_def using assms
  by (simp add: count_list_distinct distinct_card)

subsection \<open>Warm start\<close>

lemma Max_neg_draws:
  assumes "ds \<noteq> []"
  shows "Max ((\<lambda>d. - real d) ` set ds) = - real (Min (set ds))"
proof (rule Max_eqI)
  show "finite ((\<lambda>d. - real d) ` set ds)" by simp
next
  fix y assume "y \<in> (\<lambda>d. - real d) ` set ds"
  then obtain d where "d \<in> set ds" and "y = - real d" by auto
  then show "y \<le> - real (Min (set ds))" by simp
next
  have "Min (set ds) \<in> set ds" using assms by (intro Min_in) auto
  then show "- real (Min (set ds)) \<in> (\<lambda>d. - real d) ` set ds" by (rule imageI)
qed

lemma any_zero_Min:
  assumes "any_zero ds"
  shows "ds \<noteq> []" and "Min (set ds) = 0"
proof -
  from assms have z: "0 \<in> set ds" by (auto simp: any_zero_def list_ex_iff)
  then show "ds \<noteq> []" by auto
  have "Min (set ds) \<le> 0" using z by (intro Min_le) auto
  then show "Min (set ds) = 0" by simp
qed

lemma randmax_neg_draws:
  assumes "ds \<noteq> []"
  shows "randmax (map (\<lambda>d. - real d) ds) =
         Inr (filter (\<lambda>a. ds ! a = Min (set ds)) [0..<length ds])"
proof -
  have "filter (\<lambda>i. map (\<lambda>d. - real d) ds ! i = Max (set (map (\<lambda>d. - real d) ds))) [0..<length ds]
        = filter (\<lambda>a. ds ! a = Min (set ds)) [0..<length ds]"
    by (rule filter_cong) (auto simp: Max_neg_draws [OF assms])
  then show ?thesis using assms by (simp add: randmax_def)
qed

lemma warm_start_eq:
  assumes "any_zero (nb_draws s)"
  shows "warm_start s =
         Inr (map (\<lambda>a. s\<lparr>my_arm := Some a\<rparr>)
                  (filter (\<lambda>a. nb_draws s ! a = 0) [0..<length (nb_draws s)]))"
  using any_zero_Min [OF assms]
  by (simp add: warm_start_def randmax_neg_draws)

lemma least_drawn_nonempty:
  assumes "any_zero ds"
  shows "filter (\<lambda>a. ds ! a = 0) [0..<length ds] \<noteq> []"
proof -
  from assms obtain i where "i < length ds" "ds ! i = 0"
    by (auto simp: any_zero_def list_ex_iff in_set_conv_nth)
  then show ?thesis by (auto simp: filter_empty_conv)
qed

text \<open>
  C5. In every variant, a call made while some arm has zero draws returns the player with
  only \<open>my_arm\<close> changed, the new arm drawn uniformly among the least-drawn arms (those
  whose count is the minimum of \<open>nb_draws\<close>, which is zero); the result is the same
  whatever the index policy and the sort are, so neither is consulted. This holds at
  every call made in such a state, hence on every round until no count is zero.
\<close>

theorem warm_start_selects_least_drawn:
  assumes "any_zero (nb_draws s)" and "c \<noteq> Player"
  shows "\<exists>arms. choose_arm_to_play c ci asort s = Inr (map (\<lambda>a. s\<lparr>my_arm := Some a\<rparr>) arms)
           \<and> uniform_on arms {a. a < length (nb_draws s) \<and> nb_draws s ! a = Min (set (nb_draws s))}
           \<and> (\<forall>a \<in> set arms. nb_draws s ! a = 0)
           \<and> (\<forall>ci' asort'. choose_arm_to_play c ci' asort' s = choose_arm_to_play c ci asort s)"
proof -
  let ?arms = "filter (\<lambda>a. nb_draws s ! a = 0) [0..<length (nb_draws s)]"
  have run: "choose_arm_to_play c ci' asort' s = warm_start s" for ci' asort'
    using assms
    by (cases c)
       (simp_all add: RandTopOld_choose_arm_to_play_def RandTop_choose_arm_to_play_def
          MCTop_choose_arm_to_play_def Selfish_choose_arm_to_play_def)
  have eq: "choose_arm_to_play c ci asort s = Inr (map (\<lambda>a. s\<lparr>my_arm := Some a\<rparr>) ?arms)"
    by (simp only: run warm_start_eq [OF assms(1)])
  have indep: "\<forall>ci' asort'. choose_arm_to_play c ci' asort' s = choose_arm_to_play c ci asort s"
    by (intro allI) (simp only: run)
  have "set ?arms = {a. a < length (nb_draws s) \<and> nb_draws s ! a = Min (set (nb_draws s))}"
    using any_zero_Min(2) [OF assms(1)] by auto
  moreover have "uniform_on ?arms (set ?arms)"
    by (rule uniform_on_distinct) (simp_all add: least_drawn_nonempty [OF assms(1)])
  ultimately have unif: "uniform_on ?arms
      {a. a < length (nb_draws s) \<and> nb_draws s ! a = Min (set (nb_draws s))}"
    by simp
  have zero: "\<forall>a \<in> set ?arms. nb_draws s ! a = 0" by simp
  show ?thesis
    by (rule exI [of _ ?arms]) (intro conjI eq unif zero indep)
qed

theorem warm_start_selects_least_drawn_witness:
  "any_zero (nb_draws example_draws) \<and> PlayerSelfish \<noteq> Player \<and>
   (\<exists>arms. choose_arm_to_play PlayerSelfish (\<lambda>p s. [0, 0, 0]) argsort_stable example_draws
             = Inr (map (\<lambda>a. example_draws\<lparr>my_arm := Some a\<rparr>) arms)
      \<and> uniform_on arms {a. a < length (nb_draws example_draws)
                              \<and> nb_draws example_draws ! a = Min (set (nb_draws example_draws))}
      \<and> (\<forall>a \<in> set arms. nb_draws example_draws ! a = 0)
      \<and> (\<forall>ci' asort'. choose_arm_to_play PlayerSelfish ci' asort' example_draws
             = choose_arm_to_play PlayerSelfish (\<lambda>p s. [0, 0, 0]) argsort_stable example_draws))"
proof -
  have h: "any_zero (nb_draws example_draws)"
    by (simp add: example_draws_def any_zero_def)
  have n: "PlayerSelfish \<noteq> Player" by simp
  show ?thesis
    by (intro conjI h n warm_start_selects_least_drawn [OF h n])
qed

subsection \<open>Receiving a reward\<close>

text \<open>
  C6. For PlayerSelfish, with the current arm \<open>a\<close> selected, \<open>receive_reward\<close> returns; a
  reported collision leaves \<open>cum_rewards[a]\<close> as it was, no collision adds exactly the
  reward to it; in both cases \<open>has_collided\<close> is false afterwards, \<open>nb_draws[a]\<close> and \<open>t\<close>
  have grown by one, and no other arm's entry has changed.
\<close>

theorem Selfish_receive_reward_no_sensing:
  assumes "my_arm s = Some a" and "a < length (cum_rewards s)" and "a < length (nb_draws s)"
  shows "\<exists>s'. Selfish_receive_reward s reward collision = Inr s'
           \<and> (collision \<longrightarrow> cum_rewards s' ! a = cum_rewards s ! a)
           \<and> (\<not> collision \<longrightarrow> cum_rewards s' ! a = cum_rewards s ! a + reward)
           \<and> (\<forall>i. i \<noteq> a \<longrightarrow> cum_rewards s' ! i = cum_rewards s ! i)
           \<and> has_collided s' = False
           \<and> nb_draws s' ! a = nb_draws s ! a + 1
           \<and> (\<forall>i. i \<noteq> a \<longrightarrow> nb_draws s' ! i = nb_draws s ! i)
           \<and> t s' = t s + 1"
  using assms by (simp add: Selfish_receive_reward_def receive_reward_def)

theorem Selfish_receive_reward_no_sensing_witness:
  "my_arm example_draws = Some 0 \<and> 0 < length (cum_rewards example_draws)
   \<and> 0 < length (nb_draws example_draws)
   \<and> (\<exists>s'. Selfish_receive_reward example_draws 5 True = Inr s'
           \<and> (True \<longrightarrow> cum_rewards s' ! 0 = cum_rewards example_draws ! 0)
           \<and> (\<not> True \<longrightarrow> cum_rewards s' ! 0 = cum_rewards example_draws ! 0 + 5)
           \<and> (\<forall>i. i \<noteq> 0 \<longrightarrow> cum_rewards s' ! i = cum_rewards example_draws ! i)
           \<and> has_collided s' = False
           \<and> nb_draws s' ! 0 = nb_draws example_draws ! 0 + 1
           \<and> (\<forall>i. i \<noteq> 0 \<longrightarrow> nb_draws s' ! i = nb_draws example_draws ! i)
           \<and> t s' = t example_draws + 1)"
proof -
  have h1: "my_arm example_draws = Some 0" by (simp add: example_draws_def)
  have h2: "0 < length (cum_rewards example_draws)"
    by (simp add: example_draws_def init_def clear_def)
  have h3: "0 < length (nb_draws example_draws)" by (simp add: example_draws_def)
  show ?thesis
    by (intro conjI h1 h2 h3 Selfish_receive_reward_no_sensing [OF h1 h2 h3])
qed

lemma Selfish_receive_reward_example:
  "Selfish_receive_reward example_draws 5 True
     = Inr (example_draws\<lparr>cum_rewards := [0, 0, 0], nb_draws := [2, 0, 0],
                           has_collided := False, t := 1\<rparr>)"
  "Selfish_receive_reward example_draws 5 False
     = Inr (example_draws\<lparr>cum_rewards := [5, 0, 0], nb_draws := [2, 0, 0],
                           has_collided := False, t := 1\<rparr>)"
  by (simp_all add: Selfish_receive_reward_def receive_reward_def example_draws_def init_def
      clear_def numeral_3_eq_3)

text \<open>
  C10. After \<open>clear()\<close> the arm is undefined. A \<open>receive_reward\<close> made while it is
  undefined does not update one arm: it adds the reward to every entry of \<open>cum_rewards\<close>
  and one to every entry of \<open>nb_draws\<close>. With an arm selected the update touches that
  arm's entries only. So the single-arm bookkeeping holds only after a selection.
\<close>

theorem receive_reward_needs_a_selected_arm:
  "my_arm (clear s0) = None
   \<and> (my_arm s = None \<longrightarrow>
        (\<exists>s'. receive_reward s reward collision = Inr s'
           \<and> length (cum_rewards s') = length (cum_rewards s)
           \<and> length (nb_draws s') = length (nb_draws s)
           \<and> (\<forall>i < length (cum_rewards s). cum_rewards s' ! i = cum_rewards s ! i + reward)
           \<and> (\<forall>i < length (nb_draws s). nb_draws s' ! i = nb_draws s ! i + 1)))
   \<and> (\<forall>a. my_arm s = Some a \<and> a < length (cum_rewards s) \<and> a < length (nb_draws s) \<longrightarrow>
        (\<exists>s'. receive_reward s reward collision = Inr s'
           \<and> cum_rewards s' ! a = cum_rewards s ! a + reward
           \<and> nb_draws s' ! a = nb_draws s ! a + 1
           \<and> (\<forall>i. i \<noteq> a \<longrightarrow> cum_rewards s' ! i = cum_rewards s ! i
                               \<and> nb_draws s' ! i = nb_draws s ! i)))"
  by (simp add: receive_reward_def clear_def)

theorem receive_reward_needs_a_selected_arm_witness:
  "my_arm (init 3 2 ()) = None
   \<and> (\<exists>s'. receive_reward (init 3 2 ()) 5 False = Inr s'
           \<and> length (cum_rewards s') = length (cum_rewards (init 3 2 ()))
           \<and> length (nb_draws s') = length (nb_draws (init 3 2 ()))
           \<and> (\<forall>i < length (cum_rewards (init 3 2 ())).
                 cum_rewards s' ! i = cum_rewards (init 3 2 ()) ! i + 5)
           \<and> (\<forall>i < length (nb_draws (init 3 2 ())).
                 nb_draws s' ! i = nb_draws (init 3 2 ()) ! i + 1))
   \<and> my_arm example_draws = Some 0
   \<and> (\<exists>s'. receive_reward example_draws 5 False = Inr s'
           \<and> cum_rewards s' ! 0 = cum_rewards example_draws ! 0 + 5
           \<and> nb_draws s' ! 0 = nb_draws example_draws ! 0 + 1
           \<and> (\<forall>i. i \<noteq> 0 \<longrightarrow> cum_rewards s' ! i = cum_rewards example_draws ! i
                               \<and> nb_draws s' ! i = nb_draws example_draws ! i))"
proof -
  have n: "my_arm (init 3 2 ()) = None" by (simp add: init_def clear_def)
  have e: "my_arm example_draws = Some 0 \<and> 0 < length (cum_rewards example_draws)
           \<and> 0 < length (nb_draws example_draws)"
    by (simp add: example_draws_def init_def clear_def)
  note a = receive_reward_needs_a_selected_arm [of undefined "init 3 2 ()" 5 False]
  note b = receive_reward_needs_a_selected_arm [of undefined example_draws 5 False]
  have p1: "\<exists>s'. receive_reward (init 3 2 ()) 5 False = Inr s'
           \<and> length (cum_rewards s') = length (cum_rewards (init 3 2 ()))
           \<and> length (nb_draws s') = length (nb_draws (init 3 2 ()))
           \<and> (\<forall>i < length (cum_rewards (init 3 2 ())).
                 cum_rewards s' ! i = cum_rewards (init 3 2 ()) ! i + 5)
           \<and> (\<forall>i < length (nb_draws (init 3 2 ())).
                 nb_draws s' ! i = nb_draws (init 3 2 ()) ! i + 1)"
    using a n by blast
  have p2: "\<exists>s'. receive_reward example_draws 5 False = Inr s'
           \<and> cum_rewards s' ! 0 = cum_rewards example_draws ! 0 + 5
           \<and> nb_draws s' ! 0 = nb_draws example_draws ! 0 + 1
           \<and> (\<forall>i. i \<noteq> 0 \<longrightarrow> cum_rewards s' ! i = cum_rewards example_draws ! i
                               \<and> nb_draws s' ! i = nb_draws example_draws ! i)"
    using b e by blast
  show ?thesis using n e p1 p2 by blast
qed

lemma receive_reward_before_choice_example:
  "receive_reward (init 3 2 ()) 5 False
     = Inr ((init 3 2 ())\<lparr>cum_rewards := [5, 5, 5], nb_draws := [1, 1, 1], t := 1\<rparr>)"
  by (simp add: receive_reward_def init_def clear_def numeral_3_eq_3)

subsection \<open>The factory\<close>

text \<open>
  C7, as stated, fails: the base class \<open>Player\<close> is none of the four variants, and the
  factory builds two instances of it.
\<close>

theorem strategy_accepts_base_class:
  "PlayerClass Player \<notin> {PlayerClass PlayerRandTopOld, PlayerClass PlayerRandTop,
                           PlayerClass PlayerMCTop, PlayerClass PlayerSelfish}
   \<and> strategy (PlayerClass Player) 3 2 () = Inr [(Player, init 3 2 ()), (Player, init 3 2 ())]"
  by (simp add: upt_rec [of 0] upt_rec [of 1] numeral_2_eq_2)

text \<open>
  C7, amended. The factory fails, with an assertion error, exactly when the requested class
  is not a subclass of \<open>Player\<close>; for every class it accepts (the four variants and the
  base class) it returns exactly \<open>nb_players\<close> instances of that class, each freshly
  initialised with the same arm count, player count and policy argument.
\<close>

theorem strategy_rejects_non_players:
  "(strategy ca K M pol = Inl AssertionError \<longleftrightarrow> \<not> issubclass_Player ca)
   \<and> (\<forall>c. ca = PlayerClass c \<longrightarrow>
        (\<exists>ps. strategy ca K M pol = Inr ps \<and> length ps = M
           \<and> (\<forall>p \<in> set ps. fst p = c \<and> nb_arms (snd p) = K \<and> nb_players (snd p) = M
                  \<and> policy (snd p) = pol \<and> snd p = init K M pol)))"
  by (cases ca) (auto simp: init_def clear_def)

theorem strategy_rejects_non_players_witness:
  "(strategy OtherClass 3 2 () = Inl AssertionError \<longleftrightarrow> \<not> issubclass_Player OtherClass)
   \<and> (\<exists>ps. strategy (PlayerClass PlayerMCTop) 3 2 () = Inr ps \<and> length ps = 2
           \<and> (\<forall>p \<in> set ps. fst p = PlayerMCTop \<and> nb_arms (snd p) = 3 \<and> nb_players (snd p) = 2
                  \<and> policy (snd p) = () \<and> snd p = init 3 2 ()))"
  using strategy_rejects_non_players [of OtherClass 3 2 "()"]
        strategy_rejects_non_players [of "PlayerClass PlayerMCTop" 3 2 "()"]
  by blast

subsection \<open>The top-M arms and the filtered candidates\<close>

lemma is_argsort_stable: "is_argsort (argsort_stable xs) xs"
  by (simp add: is_argsort_def argsort_stable_def list_all_iff sorted_sort_key)

lemma sorted_wrt_last:
  assumes "sorted_wrt P ys" and "y \<in> set ys"
  shows "y = last ys \<or> P y (last ys)"
  using assms by (induction ys) auto

lemma top_arms_nonempty:
  assumes "is_argsort idx xs" and "0 < M" and "xs \<noteq> []"
  shows "take M (rev idx) \<noteq> []"
  using assms by (auto simp: is_argsort_def take_eq_Nil)

lemma top_arms_distinct:
  assumes "is_argsort idx xs"
  shows "distinct (take M (rev idx))"
  using assms by (simp add: is_argsort_def)

lemma top_arms_in_range:
  assumes "is_argsort idx xs" and "b \<in> set (take M (rev idx))"
  shows "b < length xs"
proof -
  from assms(2) have "b \<in> set idx"
    by (auto dest: in_set_takeD)
  with assms(1) show ?thesis by (simp add: is_argsort_def list_all_iff)
qed

lemma top_arms_last_least:
  assumes "is_argsort idx xs" and "b \<in> set (take M (rev idx))"
  shows "xs ! last (take M (rev idx)) \<le> xs ! b"
proof -
  from assms(1) have "sorted_wrt (\<lambda>i j. xs ! i \<le> xs ! j) idx"
    by (simp add: is_argsort_def sorted_map)
  then have "sorted_wrt (\<lambda>i j. xs ! j \<le> xs ! i) (rev idx)"
    by (simp add: sorted_wrt_rev)
  then have "sorted_wrt (\<lambda>i j. xs ! j \<le> xs ! i) (take M (rev idx))"
    by (rule sorted_wrt_take)
  from sorted_wrt_last [OF this assms(2)] show ?thesis by auto
qed

lemma top_arms_min:
  assumes "is_argsort idx xs" and "0 < M" and "xs \<noteq> []"
  shows "Min ((\<lambda>b. xs ! b) ` set (take M (rev idx))) = xs ! last (take M (rev idx))"
proof (rule Min_eqI)
  show "finite ((\<lambda>b. xs ! b) ` set (take M (rev idx)))" by simp
next
  fix y assume "y \<in> (\<lambda>b. xs ! b) ` set (take M (rev idx))"
  then show "xs ! last (take M (rev idx)) \<le> y"
    using top_arms_last_least [OF assms(1)] by auto
next
  have "last (take M (rev idx)) \<in> set (take M (rev idx))"
    using top_arms_nonempty [OF assms] by simp
  then show "xs ! last (take M (rev idx)) \<in> (\<lambda>b. xs ! b) ` set (take M (rev idx))"
    by (rule imageI)
qed

lemma min_ucb_of_best_arms_eq:
  assumes "is_argsort idx xs" and "0 < M" and "xs \<noteq> []"
  shows "min_ucb_of_best_arms xs (take M (rev idx))
         = Inr (Min ((\<lambda>b. xs ! b) ` set (take M (rev idx))))"
proof -
  have ne: "take M (rev idx) \<noteq> []" by (rule top_arms_nonempty [OF assms])
  then have "last (take M (rev idx)) \<in> set (take M (rev idx))" by simp
  then have "last (take M (rev idx)) < length xs"
    by (rule top_arms_in_range [OF assms(1)])
  then show ?thesis
    using ne by (simp add: min_ucb_of_best_arms_def top_arms_min [OF assms])
qed

lemma new_arms_to_choose_Some:
  assumes "length old = length new" and "a < length old"
  shows "new_arms_to_choose old (Some a) new mn
         = Inr (filter (\<lambda>i. old ! i \<le> old ! a \<and> mn \<le> new ! i) [0..<length old])"
proof -
  let ?msk = "map (\<lambda>(x, y). x \<and> y) (zip (map (\<lambda>u. u \<le> old ! a) old) (map (\<lambda>u. u \<ge> mn) new))"
  have len: "length ?msk = length old" using assms by simp
  have fl: "filter (\<lambda>i. ?msk ! i) [0..<length old]
            = filter (\<lambda>i. old ! i \<le> old ! a \<and> mn \<le> new ! i) [0..<length old]"
    by (rule filter_cong) (use assms in auto)
  have "new_arms_to_choose old (Some a) new mn = Inr (filter (\<lambda>i. ?msk ! i) [0..<length ?msk])"
    using assms by (simp add: new_arms_to_choose_def broadcast_and_def)
  then show ?thesis by (simp only: len fl)
qed

lemma filtered_candidates_eq:
  assumes "well_formed s" and "contracts ci asort s" and "my_arm s = Some a"
  shows "filtered_candidates s (ci (policy s) s) (top_arms asort (nb_players s) (ci (policy s) s))
         = Inr (filter (\<lambda>i. ucbs s ! i \<le> ucbs s ! a
                   \<and> Min ((\<lambda>b. ci (policy s) s ! b)
                          ` set (top_arms asort (nb_players s) (ci (policy s) s)))
                      \<le> ci (policy s) s ! i)
                 [0..<nb_arms s])"
proof -
  let ?new = "ci (policy s) s"
  from assms have a: "a < nb_arms s" and M: "0 < nb_players s"
    and lo: "length (ucbs s) = nb_arms s" and ln: "length ?new = nb_arms s"
    and srt: "is_argsort (asort ?new) ?new"
    by (simp_all add: well_formed_def contracts_def)
  from a ln have ne: "?new \<noteq> []" by auto
  show ?thesis
    using new_arms_to_choose_Some [of "ucbs s" ?new a] a lo ln
    by (simp add: filtered_candidates_def top_arms_def min_ucb_of_best_arms_eq [OF srt M ne]
        assms(3))
qed

lemma set_filtered_candidates:
  assumes "length old = K" and "length new = K"
  shows "set (filter (\<lambda>i. old ! i \<le> old ! a \<and> Min ((\<lambda>b. new ! b) ` B) \<le> new ! i) [0..<K])
         = candidate_set old new a B"
  using assms by (auto simp: candidate_set_def)

lemma choose_filtered_draw:
  assumes "well_formed s" and "contracts ci asort s" and "my_arm s = Some a"
    and "ucbs_new = ci (policy s) s" and "best = top_arms asort (nb_players s) ucbs_new"
    and "C = candidate_set (ucbs s) ucbs_new a (set best)"
  shows "C = {} \<Longrightarrow> choose_filtered s ucbs_new best = Inl ValueError"
    and "C \<noteq> {} \<Longrightarrow> \<exists>arms. uniform_on arms C \<and> choose_filtered s ucbs_new best = Inr arms"
proof -
  let ?cands = "filter (\<lambda>i. ucbs s ! i \<le> ucbs s ! a
                   \<and> Min ((\<lambda>b. ucbs_new ! b) ` set best) \<le> ucbs_new ! i) [0..<nb_arms s]"
  from assms have lo: "length (ucbs s) = nb_arms s" and ln: "length ucbs_new = nb_arms s"
    by (simp_all add: well_formed_def contracts_def)
  have fc: "filtered_candidates s ucbs_new best = Inr ?cands"
    unfolding assms(4,5) by (rule filtered_candidates_eq [OF assms(1-3)])
  have st: "set ?cands = C"
    unfolding assms(6) by (rule set_filtered_candidates [OF lo ln])
  have cf: "choose_filtered s ucbs_new best = choice ?cands"
    by (simp add: choose_filtered_def fc)
  show "choose_filtered s ucbs_new best = Inl ValueError" if "C = {}"
  proof -
    from that st have "?cands = []" by (simp only: set_empty)
    then show ?thesis by (simp add: cf choice_def)
  qed
  show "\<exists>arms. uniform_on arms C \<and> choose_filtered s ucbs_new best = Inr arms" if "C \<noteq> {}"
  proof -
    have "set ?cands \<noteq> {}" unfolding st by (rule that)
    then have ne: "?cands \<noteq> []" unfolding set_empty .
    have "uniform_on ?cands (set ?cands)" by (rule uniform_on_distinct [OF ne]) simp
    then have "uniform_on ?cands C" by (simp only: st)
    moreover have "choose_filtered s ucbs_new best = Inr ?cands"
      using ne by (simp add: cf choice_def)
    ultimately show ?thesis by blast
  qed
qed

lemma choice_top_arms:
  assumes "well_formed s" and "contracts ci asort s"
    and "ucbs_new = ci (policy s) s" and "best = top_arms asort (nb_players s) ucbs_new"
  shows "choice best = Inr best" and "uniform_on best (set best)" and "best \<noteq> []"
proof -
  from assms have M: "0 < nb_players s" and ln: "length ucbs_new = nb_arms s"
    and K: "0 < nb_arms s" and srt: "is_argsort (asort ucbs_new) ucbs_new"
    by (auto simp: well_formed_def contracts_def)
  from ln K have ne: "ucbs_new \<noteq> []" by auto
  show b: "best \<noteq> []"
    unfolding assms(4) top_arms_def by (rule top_arms_nonempty [OF srt M ne])
  then show "choice best = Inr best" by (simp add: choice_def)
  have "distinct best" unfolding assms(4) top_arms_def by (rule top_arms_distinct [OF srt])
  with b show "uniform_on best (set best)" by (rule uniform_on_distinct)
qed

subsection \<open>The example players\<close>

lemma example_top_arms: "top_arms argsort_stable 2 [0, 5, 6] = [2, 1]"
  by (simp add: top_arms_def argsort_stable_def numeral_3_eq_3 numeral_2_eq_2)

lemma example_facts:
  "well_formed example_switch" "well_formed example_empty" "well_formed example_seated"
  "contracts example_index argsort_stable example_switch"
  "contracts example_index argsort_stable example_empty"
  "contracts example_index argsort_stable example_seated"
  "\<not> any_zero (nb_draws example_switch)" "\<not> any_zero (nb_draws example_empty)"
  "\<not> any_zero (nb_draws example_seated)"
  by (simp_all add: well_formed_def contracts_def is_argsort_stable any_zero_def
      example_switch_def example_empty_def example_seated_def example_index_def init_def
      clear_def)

lemma example_fields:
  "nb_players example_switch = 2" "nb_players example_empty = 2" "nb_players example_seated = 2"
  "nb_arms example_switch = 3" "nb_arms example_empty = 3" "nb_arms example_seated = 3"
  "ucbs example_switch = [3, 2, 1]" "ucbs example_empty = [1, 2, 3]"
  "ucbs example_seated = [1, 2, 3]"
  "my_arm example_switch = Some 0" "my_arm example_empty = Some 0"
  "my_arm example_seated = Some 2"
  "has_collided example_seated" "\<not> is_on_chair example_seated"
  "\<not> has_collided example_empty" "\<not> has_collided example_switch"
  by (simp_all add: example_switch_def example_empty_def example_seated_def init_def clear_def)

lemma example_index_app: "example_index p s = [0, 5, 6]"
  by (simp add: example_index_def)

lemma example_new:
  "example_index (policy example_switch) example_switch = [0, 5, 6]"
  "example_index (policy example_empty) example_empty = [0, 5, 6]"
  "example_index (policy example_seated) example_seated = [0, 5, 6]"
  by (simp_all add: example_index_def)

lemma example_empty_candidates: "candidate_set [1, 2, 3] [0, 5, 6] 0 (set [2, 1]) = {}"
  by (auto simp: candidate_set_def numeral_3_eq_3 less_Suc_eq)

lemma example_switch_candidates: "candidate_set [3, 2, 1] [0, 5, 6] 0 (set [2, 1]) = {1, 2}"
  by (auto simp: candidate_set_def numeral_3_eq_3 less_Suc_eq)

text \<open>Two calls of a PlayerMCTop: the first call of a fresh player, which draws among all
  three arms, and a call that raises in a state the player reaches when it is rewarded
  before its first choice. The other two ranking variants reach the same state and raise
  there too.\<close>

lemma example_first_choice:
  "choose_arm_to_play PlayerMCTop ci asort (init 3 2 ())
   = Inr [(init 3 2 ())\<lparr>my_arm := Some 0\<rparr>, (init 3 2 ())\<lparr>my_arm := Some 1\<rparr>,
          (init 3 2 ())\<lparr>my_arm := Some 2\<rparr>]"
  by (simp add: MCTop_choose_arm_to_play_def warm_start_eq any_zero_def init_def clear_def
      numeral_3_eq_3)

lemma example_position_index:
  "index_by_position p example_unchosen = [0, 1, 2]"
  "index_by_position p example_astray = [0, 1, 2]"
  by (simp_all add: index_by_position_def example_unchosen_def example_astray_def init_def
      clear_def numeral_3_eq_3)

lemma example_position_top: "top_arms argsort_stable 2 [0, 1, 2] = [2, 1]"
  by (simp add: top_arms_def argsort_stable_def numeral_3_eq_3 numeral_2_eq_2)

lemma example_unchosen_reward:
  "receive_reward_of PlayerMCTop (init 3 2 ()) 5 False = Inr example_unchosen"
  by (simp add: receive_reward_def example_unchosen_def init_def clear_def numeral_3_eq_3)

lemma example_unchosen_choice:
  "choose_arm_to_play PlayerMCTop index_by_position argsort_stable example_unchosen
   = Inr [example_astray\<lparr>is_on_chair := False\<rparr>, example_astray\<lparr>is_on_chair := False\<rparr>]"
proof -
  have f: "nb_draws example_unchosen = [1, 1, 1]" "my_arm example_unchosen = None"
    "nb_players example_unchosen = 2" "ucbs example_unchosen = [0, 0, 0]"
    by (simp_all add: example_unchosen_def init_def clear_def numeral_3_eq_3)
  show ?thesis
    by (simp add: MCTop_choose_arm_to_play_def any_zero_def Let_def not_in_def f
        example_position_index example_position_top choose_filtered_def
        filtered_candidates_def min_ucb_of_best_arms_def new_arms_to_choose_def
        broadcast_and_def choice_def example_astray_def)
qed

lemma example_astray_choice:
  "choose_arm_to_play PlayerMCTop index_by_position argsort_stable example_astray
   = Inl ValueError"
proof -
  have f: "nb_draws example_astray = [1, 1, 1]" "my_arm example_astray = Some 0"
    "nb_players example_astray = 2" "ucbs example_astray = [0, 1, 2]"
    by (simp_all add: example_astray_def example_unchosen_def init_def clear_def)
  show ?thesis
    by (simp add: MCTop_choose_arm_to_play_def any_zero_def Let_def not_in_def f
        example_position_index example_position_top choose_filtered_def
        filtered_candidates_def min_ucb_of_best_arms_def new_arms_to_choose_def
        broadcast_and_def choice_def)
qed

lemma example_astray_reachable:
  "reachable PlayerMCTop index_by_position argsort_stable 3 2 () example_astray"
proof -
  have "reachable PlayerMCTop index_by_position argsort_stable 3 2 () example_unchosen"
    by (rule reachable.rewarded [OF reachable.created example_unchosen_reward])
  from reachable.chosen [OF this example_unchosen_choice, of "example_astray\<lparr>is_on_chair := False\<rparr>"]
  have "reachable PlayerMCTop index_by_position argsort_stable 3 2 ()
          (example_astray\<lparr>is_on_chair := False\<rparr>)" by simp
  moreover have "example_astray\<lparr>is_on_chair := False\<rparr> = example_astray"
    by (simp add: example_astray_def example_unchosen_def init_def clear_def)
  ultimately show ?thesis by simp
qed












subsection \<open>The candidate set\<close>

text \<open>
  C4. With the old index vector \<open>ucbs\<close>, the fresh one \<open>ucbs_new\<close>, the current arm \<open>a\<close> and
  the top-M arms \<open>best\<close> computed from \<open>ucbs_new\<close>, the two lines that compute the filtered
  candidates return, and what they return lists, without repetition, exactly the arms of
  the intersection of \<open>{i. ucbs[i] \<le> ucbs[a]}\<close> and
  \<open>{i. ucbs_new[i] \<ge> min of ucbs_new over the top-M set}\<close>.
\<close>

theorem filtered_candidates_are_the_intersection:
  assumes "well_formed s" and "contracts ci asort s" and "my_arm s = Some a"
    and "ucbs_new = ci (policy s) s" and "best = top_arms asort (nb_players s) ucbs_new"
  shows "\<exists>cands. filtered_candidates s ucbs_new best = Inr cands \<and> distinct cands
           \<and> set cands = {i. i < nb_arms s \<and> ucbs s ! i \<le> ucbs s ! a}
                          \<inter> {i. i < nb_arms s
                                 \<and> ucbs_new ! i \<ge> Min ((\<lambda>b. ucbs_new ! b) ` set best)}"
proof -
  from assms have lo: "length (ucbs s) = nb_arms s" and ln: "length ucbs_new = nb_arms s"
    by (simp_all add: well_formed_def contracts_def)
  show ?thesis
    unfolding assms(4,5) filtered_candidates_eq [OF assms(1-3)] by auto
qed

theorem filtered_candidates_are_the_intersection_witness:
  "well_formed example_switch \<and> contracts example_index argsort_stable example_switch
   \<and> my_arm example_switch = Some 0
   \<and> (\<exists>cands. filtered_candidates example_switch [0, 5, 6] [2, 1] = Inr cands \<and> distinct cands
         \<and> set cands = {i. i < 3 \<and> [3, 2, 1::real] ! i \<le> [3, 2, 1] ! 0}
                        \<inter> {i. i < 3 \<and> [0, 5, 6::real] ! i
                                          \<ge> Min ((\<lambda>b. [0, 5, 6] ! b) ` set [2, 1])})"
proof -
  note T = filtered_candidates_are_the_intersection
             [OF example_facts(1) example_facts(4) example_fields(10) refl refl,
              unfolded example_new example_fields(1-9) example_top_arms]
  show ?thesis
    by (intro conjI example_facts(1) example_facts(4) example_fields(10) T)
qed

subsection \<open>The three ranking variants after warm start\<close>










subsection \<open>An empty candidate set\<close>

text \<open>
  C8, as stated, fails: there is no fallback. Past warm start, on arm 0, with old indices
  \<open>[1, 2, 3]\<close> and new indices \<open>[0, 5, 6]\<close>, the top two arms are 2 and 1, the filtered
  candidates are none, and each of the three variants raises \<open>ValueError\<close>.
\<close>

theorem empty_candidates_raise:
  "\<not> any_zero (nb_draws example_empty) \<and> my_arm example_empty = Some 0
   \<and> top_arms argsort_stable (nb_players example_empty) [0, 5, 6] = [2, 1]
   \<and> filtered_candidates example_empty [0, 5, 6] [2, 1] = Inr []
   \<and> RandTopOld_choose_arm_to_play example_index argsort_stable example_empty = Inl ValueError
   \<and> RandTop_choose_arm_to_play example_index argsort_stable example_empty = Inl ValueError
   \<and> MCTop_choose_arm_to_play example_index argsort_stable example_empty = Inl ValueError"
proof -
  have fc: "filtered_candidates example_empty [0, 5, 6] [2, 1] = Inr []"
    by (simp add: filtered_candidates_def min_ucb_of_best_arms_def new_arms_to_choose_def
        broadcast_and_def example_fields)
  then have cf: "choose_filtered example_empty [0, 5, 6] [2, 1] = Inl ValueError"
    by (simp add: choose_filtered_def choice_def)
  show ?thesis
    using example_facts(8) fc cf
    by (simp add: RandTopOld_choose_arm_to_play_def RandTop_choose_arm_to_play_def
        MCTop_choose_arm_to_play_def Let_def not_in_def example_index_app example_fields
        example_top_arms)
qed

text \<open>
  C8, amended. In every switching branch that selects from the filtered candidate set
  (PlayerRandTopOld without collision, PlayerRandTop and PlayerMCTop, the current arm
  outside the top-M arms) the draw is unconditional: the call raises \<open>ValueError\<close> exactly
  when the candidate set is empty, although the top-M arms are never empty then.
\<close>

theorem filtered_draw_has_no_fallback:
  assumes "well_formed s" and "contracts ci asort s" and "\<not> any_zero (nb_draws s)"
    and "my_arm s = Some a"
    and "ucbs_new = ci (policy s) s" and "best = top_arms asort (nb_players s) ucbs_new"
    and "C = candidate_set (ucbs s) ucbs_new a (set best)"
    and "a \<notin> set best"
  shows "(\<not> has_collided s \<longrightarrow>
            (RandTopOld_choose_arm_to_play ci asort s = Inl ValueError \<longleftrightarrow> C = {}))
       \<and> (RandTop_choose_arm_to_play ci asort s = Inl ValueError \<longleftrightarrow> C = {})
       \<and> (MCTop_choose_arm_to_play ci asort s = Inl ValueError \<longleftrightarrow> C = {})
       \<and> best \<noteq> []"
proof -
  note flt = choose_filtered_draw [OF assms(1,2,4-7)]
  note top = choice_top_arms [OF assms(1,2,5,6)]
  have cf: "choose_filtered s ucbs_new best = Inl ValueError" if "C = {}"
    using flt(1) that .
  have cf': "\<exists>arms. choose_filtered s ucbs_new best = Inr arms" if "C \<noteq> {}"
    using flt(2) [OF that] by blast
  have old: "RandTopOld_choose_arm_to_play ci asort s = Inl ValueError \<longleftrightarrow> C = {}"
    if "\<not> has_collided s"
  proof (cases "C = {}")
    case True
    then show ?thesis
      using assms(3,8) that cf [OF True]
      by (simp add: RandTopOld_choose_arm_to_play_def Let_def not_in_def assms(4)
          assms(5) [symmetric] assms(6) [symmetric])
  next
    case False
    from cf' [OF False] obtain arms where "choose_filtered s ucbs_new best = Inr arms" ..
    then show ?thesis
      using assms(3,8) that False
      by (simp add: RandTopOld_choose_arm_to_play_def Let_def not_in_def assms(4)
          assms(5) [symmetric] assms(6) [symmetric])
  qed
  have new: "RandTop_choose_arm_to_play ci asort s = Inl ValueError \<longleftrightarrow> C = {}"
  proof (cases "C = {}")
    case True
    then show ?thesis
      using assms(3,8) cf [OF True]
      by (simp add: RandTop_choose_arm_to_play_def Let_def not_in_def assms(4)
          assms(5) [symmetric] assms(6) [symmetric])
  next
    case False
    from cf' [OF False] obtain arms where "choose_filtered s ucbs_new best = Inr arms" ..
    then show ?thesis
      using assms(3,8) False
      by (simp add: RandTop_choose_arm_to_play_def Let_def not_in_def assms(4)
          assms(5) [symmetric] assms(6) [symmetric])
  qed
  have mc: "MCTop_choose_arm_to_play ci asort s = Inl ValueError \<longleftrightarrow> C = {}"
  proof (cases "C = {}")
    case True
    then show ?thesis
      using assms(3,8) cf [OF True]
      by (simp add: MCTop_choose_arm_to_play_def Let_def not_in_def assms(4)
          assms(5) [symmetric] assms(6) [symmetric])
  next
    case False
    from cf' [OF False] obtain arms where "choose_filtered s ucbs_new best = Inr arms" ..
    then show ?thesis
      using assms(3,8) False
      by (simp add: MCTop_choose_arm_to_play_def Let_def not_in_def assms(4)
          assms(5) [symmetric] assms(6) [symmetric])
  qed
  show ?thesis using old new mc top(3) by blast
qed

theorem filtered_draw_has_no_fallback_witness:
  "well_formed example_switch \<and> contracts example_index argsort_stable example_switch
   \<and> \<not> any_zero (nb_draws example_switch) \<and> my_arm example_switch = Some 0
   \<and> 0 \<notin> set [2, 1::nat] \<and> \<not> has_collided example_switch
   \<and> candidate_set [3, 2, 1] [0, 5, 6] 0 (set [2, 1]) \<noteq> {}
   \<and> RandTopOld_choose_arm_to_play example_index argsort_stable example_switch \<noteq> Inl ValueError
   \<and> RandTop_choose_arm_to_play example_index argsort_stable example_switch \<noteq> Inl ValueError
   \<and> MCTop_choose_arm_to_play example_index argsort_stable example_switch \<noteq> Inl ValueError"
proof -
  have n: "0 \<notin> set (top_arms argsort_stable (nb_players example_switch)
                        (example_index (policy example_switch) example_switch))"
    by (simp add: example_index_app example_fields example_top_arms)
  note T = filtered_draw_has_no_fallback
             [OF example_facts(1) example_facts(4) example_facts(7) example_fields(10)
                 refl refl refl n,
              unfolded example_new example_fields(1-9) example_top_arms]
  have i: "0 \<notin> set [2, 1::nat]" by simp
  have c: "candidate_set [3, 2, 1] [0, 5, 6] 0 (set [2, 1]) \<noteq> {}"
    by (simp only: example_switch_candidates) simp
  show ?thesis
    using T i c example_facts(1) example_facts(4) example_facts(7) example_fields(10,16)
    by blast
qed

subsection \<open>The selected arm is an arm\<close>

lemma well_formed_init: "0 < M \<Longrightarrow> M \<le> K \<Longrightarrow> well_formed (init K M pol)"
  by (simp add: well_formed_def init_def clear_def)

lemma nb_arms_init: "nb_arms (init K M pol) = K"
  by (simp add: init_def clear_def)

lemma well_formed_clear: "well_formed s \<Longrightarrow> well_formed (clear s)"
  by (simp add: well_formed_def clear_def)

lemma nb_arms_clear: "nb_arms (clear s) = nb_arms s"
  by (simp add: clear_def)

lemma well_formed_receive_reward:
  assumes "well_formed s" and "receive_reward s reward collision = Inr s'"
  shows "well_formed s' \<and> nb_arms s' = nb_arms s"
  using assms
  by (auto simp: well_formed_def receive_reward_def split: option.splits if_splits)

lemma well_formed_receive_reward_of:
  assumes "well_formed s" and "receive_reward_of c s reward collision = Inr s'"
  shows "well_formed s' \<and> nb_arms s' = nb_arms s"
  using assms well_formed_receive_reward
  by (cases c) (auto simp: Selfish_receive_reward_def Let_def)

lemma randmax_in_range:
  assumes "randmax vs = Inr arms" and "b \<in> set arms"
  shows "b < length vs"
  using assms by (auto simp: randmax_def split: if_splits)

lemma randmax_nonempty:
  assumes "randmax vs = Inr arms"
  shows "arms \<noteq> []"
proof -
  from assms have ne: "vs \<noteq> []" and arms: "arms = filter (\<lambda>i. vs ! i = Max (set vs)) [0..<length vs]"
    by (auto simp: randmax_def split: if_splits)
  from ne have "Max (set vs) \<in> set vs" by (intro Max_in) auto
  then obtain i where "i < length vs" "vs ! i = Max (set vs)"
    by (auto simp: in_set_conv_nth)
  then show ?thesis unfolding arms by (auto simp: filter_empty_conv)
qed

lemma choice_Inr: "choice xs = Inr arms \<Longrightarrow> arms = xs \<and> xs \<noteq> []"
  by (auto simp: choice_def split: if_splits)

lemma new_arms_to_choose_in_range:
  assumes "new_arms_to_choose old m new mn = Inr cands" and "length old = length new"
    and "0 < length new" and "b \<in> set cands"
  shows "b < length new"
  using assms
  by (auto simp: new_arms_to_choose_def broadcast_and_def split: option.splits if_splits)

lemma choose_filtered_in_range:
  assumes "choose_filtered s new best = Inr arms" and "length (ucbs s) = length new"
    and "0 < length new" and "b \<in> set arms"
  shows "b < length new"
proof -
  from assms(1) obtain mn cands where
    "new_arms_to_choose (ucbs s) (my_arm s) new mn = Inr cands" and "choice cands = Inr arms"
    by (auto simp: choose_filtered_def filtered_candidates_def split: sum.splits)
  then show ?thesis
    using new_arms_to_choose_in_range [OF _ assms(2,3)] assms(4) choice_Inr by blast
qed

lemma warm_start_outcome:
  assumes "warm_start s = Inr outs" and "s' \<in> set outs"
  shows "\<exists>b < length (nb_draws s). s' = s\<lparr>my_arm := Some b\<rparr>"
proof -
  from assms(1) obtain arms where r: "randmax (map (\<lambda>d. - real d) (nb_draws s)) = Inr arms"
    and outs: "outs = map (\<lambda>a. s\<lparr>my_arm := Some a\<rparr>) arms"
    by (auto simp: warm_start_def split: sum.splits)
  from assms(2) outs obtain b where "b \<in> set arms" "s' = s\<lparr>my_arm := Some b\<rparr>" by auto
  with randmax_in_range [OF r] show ?thesis by auto
qed

lemma choose_outcome:
  assumes wf: "well_formed s" and ct: "contracts ci asort s"
    and len: "\<forall>s'. length (ci (policy s') s') = nb_arms s'"
    and c: "c \<noteq> Player"
    and run: "choose_arm_to_play c ci asort s = Inr outs" and mem: "s' \<in> set outs"
  shows "nb_arms s' = nb_arms s \<and> nb_players s' = nb_players s \<and> nb_draws s' = nb_draws s
         \<and> cum_rewards s' = cum_rewards s \<and> length (ucbs s') = nb_arms s
         \<and> (\<exists>b < nb_arms s. my_arm s' = Some b)"
proof -
  let ?new = "ci (policy s) s"
  let ?best = "top_arms asort (nb_players s) ?new"
  from wf ct have K: "0 < nb_arms s" and lo: "length (ucbs s) = nb_arms s"
    and ld: "length (nb_draws s) = nb_arms s" and ln: "length ?new = nb_arms s"
    and srt: "is_argsort (asort ?new) ?new"
    and arm: "\<And>a. my_arm s = Some a \<Longrightarrow> a < nb_arms s"
    by (auto simp: well_formed_def contracts_def)
  have best: "b < nb_arms s" if "b \<in> set ?best" for b
    using top_arms_in_range [OF srt] that ln by (simp add: top_arms_def)
  have flt: "b < nb_arms s" if "choose_filtered s ?new ?best = Inr arms" "b \<in> set arms" for arms b
    using choose_filtered_in_range [OF that(1) _ _ that(2)] lo ln K by simp
  have kept: "\<exists>b < nb_arms s. my_arm s = Some b" if "\<not> not_in (my_arm s) ?best"
    using that arm by (auto simp: not_in_def split: option.splits)
  show ?thesis
  proof (cases "any_zero (nb_draws s)")
    case True
    with c run have "warm_start s = Inr outs"
      by (cases c)
         (simp_all add: RandTopOld_choose_arm_to_play_def RandTop_choose_arm_to_play_def
            MCTop_choose_arm_to_play_def Selfish_choose_arm_to_play_def)
    from warm_start_outcome [OF this mem] ld lo show ?thesis by auto
  next
    case False
    show ?thesis
    proof (cases c)
      case Player
      with c show ?thesis by simp
    next
      case PlayerRandTopOld
      with run False have r: "RandTopOld_choose_arm_to_play ci asort s = Inr outs" by simp
      show ?thesis
      proof (cases "not_in (my_arm s) ?best")
        case out: True
        show ?thesis
        proof (cases "has_collided s")
          case True
          with r False out obtain arms where "choice ?best = Inr arms"
            and outs: "outs = map (\<lambda>a. s\<lparr>my_arm := Some a, ucbs := ?new\<rparr>) arms"
            by (auto simp: RandTopOld_choose_arm_to_play_def Let_def split: sum.splits)
          then have "arms = ?best" using choice_Inr by blast
          with mem outs best ln show ?thesis by auto
        next
          case nc: False
          with r False out obtain arms where cf: "choose_filtered s ?new ?best = Inr arms"
            and outs: "outs = map (\<lambda>a. s\<lparr>my_arm := Some a, ucbs := ?new\<rparr>) arms"
            by (auto simp: RandTopOld_choose_arm_to_play_def Let_def split: sum.splits)
          with mem flt [OF cf] ln show ?thesis by auto
        qed
      next
        case inn: False
        with r False have "outs = [s\<lparr>ucbs := ?new\<rparr>]"
          by (simp add: RandTopOld_choose_arm_to_play_def Let_def)
        with mem kept [OF inn] ln show ?thesis by auto
      qed
    next
      case PlayerRandTop
      with run False have r: "RandTop_choose_arm_to_play ci asort s = Inr outs" by simp
      show ?thesis
      proof (cases "not_in (my_arm s) ?best")
        case out: True
        with r False obtain arms where cf: "choose_filtered s ?new ?best = Inr arms"
          and outs: "outs = map (\<lambda>a. s\<lparr>my_arm := Some a, ucbs := ?new\<rparr>) arms"
          by (auto simp: RandTop_choose_arm_to_play_def Let_def split: sum.splits)
        with mem flt [OF cf] ln show ?thesis by auto
      next
        case inn: False
        show ?thesis
        proof (cases "has_collided s")
          case True
          with r False inn obtain arms where "choice ?best = Inr arms"
            and outs: "outs = map (\<lambda>a. s\<lparr>my_arm := Some a, ucbs := ?new\<rparr>) arms"
            by (auto simp: RandTop_choose_arm_to_play_def Let_def split: sum.splits)
          then have "arms = ?best" using choice_Inr by blast
          with mem outs best ln show ?thesis by auto
        next
          case nc: False
          with r False inn have "outs = [s\<lparr>ucbs := ?new\<rparr>]"
            by (simp add: RandTop_choose_arm_to_play_def Let_def)
          with mem kept [OF inn] ln show ?thesis by auto
        qed
      qed
    next
      case PlayerMCTop
      with run False have r: "MCTop_choose_arm_to_play ci asort s = Inr outs" by simp
      show ?thesis
      proof (cases "not_in (my_arm s) ?best")
        case out: True
        with r False obtain arms where cf: "choose_filtered s ?new ?best = Inr arms"
          and outs: "outs = map (\<lambda>a. s\<lparr>my_arm := Some a, is_on_chair := False,
                                          ucbs := ?new\<rparr>) arms"
          by (auto simp: MCTop_choose_arm_to_play_def Let_def split: sum.splits)
        with mem flt [OF cf] ln show ?thesis by auto
      next
        case inn: False
        show ?thesis
        proof (cases "has_collided s \<and> \<not> is_on_chair s")
          case True
          with r False inn obtain arms where "choice ?best = Inr arms"
            and outs: "outs = map (\<lambda>a. s\<lparr>my_arm := Some a, is_on_chair := False,
                                            ucbs := ?new\<rparr>) arms"
            by (auto simp: MCTop_choose_arm_to_play_def Let_def split: sum.splits)
          then have "arms = ?best" using choice_Inr by blast
          with mem outs best ln show ?thesis by auto
        next
          case nc: False
          with r False inn have "outs = [s\<lparr>is_on_chair := True, ucbs := ?new\<rparr>]"
            by (auto simp: MCTop_choose_arm_to_play_def Let_def)
          with mem kept [OF inn] ln show ?thesis by auto
        qed
      qed
    next
      case PlayerSelfish
      with run False obtain arms where rm: "randmax (ucbs s) = Inr arms"
        and outs: "outs = map (\<lambda>a. let s' = s\<lparr>my_arm := Some a\<rparr>
                                     in s'\<lparr>ucbs := ci (policy s') s'\<rparr>) arms"
        by (auto simp: Selfish_choose_arm_to_play_def split: sum.splits)
      from mem outs obtain b where b: "b \<in> set arms"
        and s': "s' = (s\<lparr>my_arm := Some b\<rparr>)\<lparr>ucbs := ci (policy (s\<lparr>my_arm := Some b\<rparr>))
                                                      (s\<lparr>my_arm := Some b\<rparr>)\<rparr>"
        by (auto simp: Let_def)
      from randmax_in_range [OF rm b] lo have "b < nb_arms s" by simp
      moreover from len have "length (ci (policy (s\<lparr>my_arm := Some b\<rparr>)) (s\<lparr>my_arm := Some b\<rparr>))
                              = nb_arms s"
        using len [rule_format, of "s\<lparr>my_arm := Some b\<rparr>"] by simp
      ultimately show ?thesis unfolding s' by simp
    qed
  qed
qed

lemma well_formed_choose:
  assumes "well_formed s" and "contracts ci asort s"
    and "\<forall>s'. length (ci (policy s') s') = nb_arms s'" and "c \<noteq> Player"
    and "choose_arm_to_play c ci asort s = Inr outs" and "s' \<in> set outs"
  shows "well_formed s' \<and> nb_arms s' = nb_arms s"
  using choose_outcome [OF assms] assms(1) by (auto simp: well_formed_def)

lemma new_arms_to_choose_None:
  assumes "is_argsort idx new" and "0 < M" and "new \<noteq> []" and "length old = length new"
  shows "\<exists>cands. new_arms_to_choose old None new (Min ((\<lambda>b. new ! b) ` set (take M (rev idx))))
                   = Inr cands \<and> cands \<noteq> []"
proof -
  let ?best = "take M (rev idx)"
  let ?mn = "Min ((\<lambda>b. new ! b) ` set ?best)"
  define msk where
    "msk = map (\<lambda>(x, y). x \<and> y) (zip (map (\<lambda>u. True) old) (map (\<lambda>u. u \<ge> ?mn) new))"
  have eq: "new_arms_to_choose old None new ?mn = Inr (replicate (length (filter (\<lambda>b. b) msk)) 0)"
    using assms(4) by (simp add: new_arms_to_choose_def broadcast_and_def msk_def)
  have "last ?best \<in> set ?best" using top_arms_nonempty [OF assms(1-3)] by simp
  then have l: "last ?best < length new" by (rule top_arms_in_range [OF assms(1)])
  have len: "last ?best < length msk" using l assms(4) by (simp add: msk_def)
  have "msk ! last ?best" using l assms(4) by (simp add: msk_def top_arms_min [OF assms(1-3)])
  then have "msk ! last ?best = True" by simp
  with nth_mem [OF len] have tr: "True \<in> set msk" by simp
  have ne: "filter (\<lambda>b. b) msk \<noteq> []"
  proof
    assume "filter (\<lambda>b. b) msk = []"
    then have "\<forall>x \<in> set msk. \<not> x" by (simp only: filter_empty_conv)
    from this tr have "\<not> True" by (rule bspec)
    then show False by simp
  qed
  then have "replicate (length (filter (\<lambda>b. b) msk)) (0::nat) \<noteq> []" by simp
  with eq show ?thesis by blast
qed

lemma first_choice_returns:
  assumes wf: "well_formed s" and ct: "contracts ci asort s" and c: "c \<noteq> Player"
    and none: "my_arm s = None"
  shows "\<exists>outs. choose_arm_to_play c ci asort s = Inr outs"
proof (cases "any_zero (nb_draws s)")
  case True
  with c show ?thesis
    by (cases c)
       (simp_all add: RandTopOld_choose_arm_to_play_def RandTop_choose_arm_to_play_def
          MCTop_choose_arm_to_play_def Selfish_choose_arm_to_play_def warm_start_eq)
next
  case False
  let ?new = "ci (policy s) s"
  let ?best = "top_arms asort (nb_players s) ?new"
  from wf ct have K: "0 < nb_arms s" and M: "0 < nb_players s"
    and lo: "length (ucbs s) = nb_arms s" and ln: "length ?new = nb_arms s"
    and srt: "is_argsort (asort ?new) ?new"
    by (auto simp: well_formed_def contracts_def)
  from K ln have ne: "?new \<noteq> []" by auto
  have top: "choice ?best = Inr ?best" by (rule choice_top_arms(1) [OF wf ct refl refl])
  have "\<exists>cands. filtered_candidates s ?new ?best = Inr cands \<and> cands \<noteq> []"
    using new_arms_to_choose_None [OF srt M ne, of "ucbs s"] lo ln
    by (simp add: filtered_candidates_def top_arms_def min_ucb_of_best_arms_eq [OF srt M ne] none)
  then obtain cands where "choose_filtered s ?new ?best = Inr cands"
    by (auto simp: choose_filtered_def choice_def)
  note flt = this
  from K lo have "ucbs s \<noteq> []" by auto
  then have sel: "\<exists>arms. randmax (ucbs s) = Inr arms" by (simp add: randmax_def)
  show ?thesis
  proof (cases c)
    case Player
    with c show ?thesis by simp
  next
    case PlayerRandTopOld
    then show ?thesis
      using False flt top
      by (simp add: RandTopOld_choose_arm_to_play_def Let_def not_in_def none)
  next
    case PlayerRandTop
    then show ?thesis
      using False flt
      by (simp add: RandTop_choose_arm_to_play_def Let_def not_in_def none)
  next
    case PlayerMCTop
    then show ?thesis
      using False flt
      by (simp add: MCTop_choose_arm_to_play_def Let_def not_in_def none)
  next
    case PlayerSelfish
    from sel obtain arms where "randmax (ucbs s) = Inr arms" ..
    with PlayerSelfish False show ?thesis
      by (simp add: Selfish_choose_arm_to_play_def)
  qed
qed

lemma choice_not_empty: "choice xs \<noteq> Inr []"
  by (simp add: choice_def)

lemma randmax_not_empty: "randmax vs \<noteq> Inr []"
  using randmax_nonempty by blast

lemma choose_outcomes_nonempty:
  assumes "choose_arm_to_play c ci asort s = Inr outs"
  shows "outs \<noteq> []"
  using assms
  by (cases c)
     (auto simp: RandTopOld_choose_arm_to_play_def RandTop_choose_arm_to_play_def
        MCTop_choose_arm_to_play_def Selfish_choose_arm_to_play_def warm_start_def
        choose_filtered_def Let_def choice_not_empty randmax_not_empty
        split: if_splits sum.splits)

lemma reachable_well_formed:
  assumes "0 < M" and "M \<le> K"
    and len: "\<forall>s. length (ci (policy s) s) = nb_arms s"
    and srt: "\<forall>xs. is_argsort (asort xs) xs" and c: "c \<noteq> Player"
    and "reachable c ci asort K M pol s"
  shows "well_formed s \<and> nb_arms s = K"
  using assms(6)
proof (induction rule: reachable.induct)
  case created
  show ?case using assms(1,2) by (simp add: well_formed_init nb_arms_init)
next
  case (chosen s outs s')
  have "contracts ci asort s" using len srt by (simp add: contracts_def)
  with well_formed_choose [OF _ this len c chosen(2,3)] chosen.IH show ?case by simp
next
  case (rewarded s reward collision s')
  with well_formed_receive_reward_of show ?case by metis
next
  case (cleared s)
  then show ?case by (simp add: well_formed_clear nb_arms_clear)
qed

lemma index_by_position_length: "\<forall>s. length (index_by_position (policy s) s) = nb_arms s"
  by (simp add: index_by_position_def)

text \<open>
  C9. For every variant, with at least one player and no more players than arms, a policy
  that returns one index per arm and a sort that sorts: in every state the player can
  reach, by any sequence of calls, every state a \<open>choose_arm_to_play\<close> call may return has
  \<open>my_arm\<close> in \<open>[0, K)\<close>, and the call returns at least one. While \<open>my_arm\<close> is still
  undefined the call does return, so this holds from the first call on; a call that
  raises leaves an arm that already was in \<open>[0, K)\<close>.
\<close>

theorem my_arm_is_an_arm_after_choosing:
  assumes "0 < M" and "M \<le> K"
    and "\<forall>s. length (ci (policy s) s) = nb_arms s"
    and "\<forall>xs. is_argsort (asort xs) xs" and "c \<noteq> Player"
    and "reachable c ci asort K M pol s"
  shows "(\<forall>outs s'. choose_arm_to_play c ci asort s = Inr outs \<and> s' \<in> set outs \<longrightarrow>
            nb_arms s' = K \<and> (\<exists>a < K. my_arm s' = Some a))
       \<and> (\<forall>outs. choose_arm_to_play c ci asort s = Inr outs \<longrightarrow> outs \<noteq> [])
       \<and> (my_arm s = None \<longrightarrow> (\<exists>outs. choose_arm_to_play c ci asort s = Inr outs))
       \<and> (\<forall>e. choose_arm_to_play c ci asort s = Inl e \<longrightarrow> (\<exists>a < K. my_arm s = Some a))"
proof -
  from reachable_well_formed [OF assms] have wf: "well_formed s" and K: "nb_arms s = K"
    by simp_all
  have ct: "contracts ci asort s" using assms(3,4) by (simp add: contracts_def)
  have 1: "nb_arms s' = K \<and> (\<exists>a < K. my_arm s' = Some a)"
    if "choose_arm_to_play c ci asort s = Inr outs" "s' \<in> set outs" for outs s'
    using choose_outcome [OF wf ct assms(3,5) that] K by simp
  have 2: "outs \<noteq> []" if "choose_arm_to_play c ci asort s = Inr outs" for outs
    using that by (rule choose_outcomes_nonempty)
  have 3: "\<exists>outs. choose_arm_to_play c ci asort s = Inr outs" if "my_arm s = None"
    using first_choice_returns [OF wf ct assms(5) that] .
  have 4: "\<exists>a < K. my_arm s = Some a" if "choose_arm_to_play c ci asort s = Inl e" for e
  proof (cases "my_arm s")
    case None
    from 3 [OF this] that show ?thesis by auto
  next
    case (Some a)
    with wf K show ?thesis by (auto simp: well_formed_def)
  qed
  show ?thesis using 1 2 3 4 by blast
qed

theorem my_arm_is_an_arm_after_choosing_witness:
  "(0::nat) < 2 \<and> (2::nat) \<le> 3
   \<and> (\<forall>s. length (index_by_position (policy s) s) = nb_arms s)
   \<and> (\<forall>xs. is_argsort (argsort_stable xs) xs) \<and> PlayerMCTop \<noteq> Player
   \<and> reachable PlayerMCTop index_by_position argsort_stable 3 2 () (init 3 2 ())
   \<and> my_arm (init 3 2 ()) = None
   \<and> choose_arm_to_play PlayerMCTop index_by_position argsort_stable (init 3 2 ())
       = Inr [(init 3 2 ())\<lparr>my_arm := Some 0\<rparr>, (init 3 2 ())\<lparr>my_arm := Some 1\<rparr>,
              (init 3 2 ())\<lparr>my_arm := Some 2\<rparr>]
   \<and> nb_arms ((init 3 2 ())\<lparr>my_arm := Some 1\<rparr>) = 3
   \<and> (\<exists>a < 3. my_arm ((init 3 2 ())\<lparr>my_arm := Some 1\<rparr>) = Some a)
   \<and> reachable PlayerMCTop index_by_position argsort_stable 3 2 () example_astray
   \<and> choose_arm_to_play PlayerMCTop index_by_position argsort_stable example_astray
       = Inl ValueError
   \<and> (\<exists>a < 3. my_arm example_astray = Some a)"
proof -
  have h1: "(0::nat) < 2" and h2: "(2::nat) \<le> 3" and h5: "PlayerMCTop \<noteq> Player" by simp_all
  have h4: "\<forall>xs. is_argsort (argsort_stable xs) xs" by (simp add: is_argsort_stable)
  have h6: "reachable PlayerMCTop index_by_position argsort_stable 3 2 () (init 3 2 ())"
    by (rule reachable.created)
  have n: "my_arm (init 3 2 ()) = None" by (simp add: init_def clear_def)
  note A = my_arm_is_an_arm_after_choosing [OF h1 h2 index_by_position_length h4 h5 h6]
  note B = my_arm_is_an_arm_after_choosing
             [OF h1 h2 index_by_position_length h4 h5 example_astray_reachable]
  have m: "(init 3 2 ())\<lparr>my_arm := Some 1\<rparr>
           \<in> set [(init 3 2 ())\<lparr>my_arm := Some 0\<rparr>, (init 3 2 ())\<lparr>my_arm := Some 1\<rparr>,
                  (init 3 2 ())\<lparr>my_arm := Some 2\<rparr>]" by simp
  from A example_first_choice [of index_by_position argsort_stable] m
  have a: "nb_arms ((init 3 2 ())\<lparr>my_arm := Some 1\<rparr>) = 3
           \<and> (\<exists>a < 3. my_arm ((init 3 2 ())\<lparr>my_arm := Some 1\<rparr>) = Some a)" by blast
  from B example_astray_choice have b: "\<exists>a < 3. my_arm example_astray = Some a" by blast
  show ?thesis
    using h1 h2 index_by_position_length h4 h5 h6 n
      example_first_choice [of index_by_position argsort_stable] a
      example_astray_reachable example_astray_choice b
    by blast
qed

subsection \<open>The candidate set while the protocol is followed\<close>

text \<open>
  When every choice is followed by one reward, a ranking variant enters each round past
  warm start on an arm that is, by value, among the top M of the stored indices: the warm
  start leaves the stored indices at zero, and every later choice ends on an arm of the
  new top M or on a candidate. Fewer than M arms are then above the current arm, the top M
  arms cannot all be among them, and one of them is a candidate. So the candidate set is
  never empty in such a round, and the call does not raise. (It can be empty when a reward
  is received before the first choice, as for the player \<open>example_astray\<close> above.)
\<close>

lemma top_arms_card:
  assumes "is_argsort idx xs"
  shows "card (set (take M (rev idx))) = min M (length xs)"
proof -
  have "card (set (take M (rev idx))) = length (take M (rev idx))"
    by (rule distinct_card) (rule top_arms_distinct [OF assms])
  also have "\<dots> = min M (length xs)" using assms by (simp add: is_argsort_def min.commute)
  finally show ?thesis .
qed

lemma top_arms_above_min:
  assumes "is_argsort idx xs" and "b \<in> set (take M (rev idx))"
  shows "Min ((\<lambda>b. xs ! b) ` set (take M (rev idx))) \<le> xs ! b"
  using assms(2) by (intro Min_le) auto

lemma candidate_set_nonempty:
  assumes srt: "is_argsort idx new" and lo: "length old = K" and ln: "length new = K"
    and a: "a < K" and few: "card {i. i < K \<and> old ! a < old ! i} < M"
  shows "candidate_set old new a (set (take M (rev idx))) \<noteq> {}"
proof -
  let ?B = "set (take M (rev idx))"
  let ?G = "{i. i < K \<and> old ! a < old ! i}"
  have sub: "?B \<subseteq> {..<K}" using top_arms_in_range [OF srt] ln by auto
  have "\<exists>b \<in> ?B. old ! b \<le> old ! a"
  proof (rule ccontr)
    assume "\<not> (\<exists>b \<in> ?B. old ! b \<le> old ! a)"
    then have "?B \<subseteq> ?G" using sub by (auto simp: not_le)
    moreover have "finite ?G" by simp
    ultimately have "card ?B \<le> card ?G" by (rule card_mono [rotated])
    with few have "card ?B < M" by simp
    with top_arms_card [OF srt, of M] ln have "card ?B = K" by (simp add: min_def split: if_splits)
    then have "card ?B = card {..<K}" by simp
    with sub have "?B = {..<K}" by (intro card_subset_eq) auto
    with a have "a \<in> ?B" by simp
    with \<open>?B \<subseteq> ?G\<close> have "a \<in> ?G" by blast
    then show False by simp
  qed
  then obtain b where b: "b \<in> ?B" and le: "old ! b \<le> old ! a" by blast
  from b sub have bK: "b < K" by auto
  have "b \<in> candidate_set old new a ?B"
    using bK le lo ln top_arms_above_min [OF srt b] by (simp add: candidate_set_def)
  then show ?thesis by blast
qed

lemma top_arms_rank:
  assumes srt: "is_argsort idx new" and b: "b \<in> set (take M (rev idx))"
  shows "card {i. i < length new \<and> new ! b < new ! i} < M"
proof -
  let ?r = "rev idx"
  from srt have d: "distinct ?r" and len: "length ?r = length new"
    and rng: "set ?r \<subseteq> {..<length new}"
    by (auto simp: is_argsort_def list_all_iff)
  from d len have "card (set ?r) = card {..<length new}" by (simp add: distinct_card)
  with rng have all: "set ?r = {..<length new}" by (intro card_subset_eq) auto
  from srt have "sorted_wrt (\<lambda>i j. new ! i \<le> new ! j) idx"
    by (simp add: is_argsort_def sorted_map)
  then have desc: "sorted_wrt (\<lambda>i j. new ! j \<le> new ! i) ?r" by (simp add: sorted_wrt_rev)
  from b obtain j where j: "j < M" "j < length ?r" "?r ! j = b"
    by (auto simp: in_set_conv_nth)
  have "{i. i < length new \<and> new ! b < new ! i} \<subseteq> (\<lambda>k. ?r ! k) ` {..<j}"
  proof
    fix i assume "i \<in> {i. i < length new \<and> new ! b < new ! i}"
    then have i: "i < length new" "new ! b < new ! i" by auto
    with all have "i \<in> set ?r" by simp
    then obtain k where k: "k < length ?r" "?r ! k = i"
      unfolding in_set_conv_nth by blast
    have "k < j"
    proof (rule ccontr)
      assume "\<not> k < j"
      then consider "k = j" | "j < k" by linarith
      then show False
      proof cases
        case 1
        with k j i show False by simp
      next
        case 2
        from sorted_wrt_nth_less [OF desc 2 k(1)] k j i show False by simp
      qed
    qed
    with k show "i \<in> (\<lambda>k. ?r ! k) ` {..<j}" by auto
  qed
  then have "card {i. i < length new \<and> new ! b < new ! i} \<le> card ((\<lambda>k. ?r ! k) ` {..<j})"
    by (intro card_mono) auto
  also have "\<dots> \<le> card {..<j}" by (rule card_image_le) simp
  finally show ?thesis using j(1) by simp
qed

lemma candidate_rank:
  assumes srt: "is_argsort idx new" and M: "0 < M" and ne: "new \<noteq> []"
    and b: "b \<in> candidate_set old new a (set (take M (rev idx)))"
  shows "card {i. i < length new \<and> new ! b < new ! i} < M"
proof -
  let ?l = "last (take M (rev idx))"
  have l: "?l \<in> set (take M (rev idx))" using top_arms_nonempty [OF srt M ne] by simp
  from b have "new ! ?l \<le> new ! b"
    by (simp add: candidate_set_def top_arms_min [OF srt M ne])
  then have "{i. i < length new \<and> new ! b < new ! i} \<subseteq> {i. i < length new \<and> new ! ?l < new ! i}"
    by auto
  then have "card {i. i < length new \<and> new ! b < new ! i}
             \<le> card {i. i < length new \<and> new ! ?l < new ! i}"
    by (intro card_mono) auto
  with top_arms_rank [OF srt l] show ?thesis by simp
qed

lemma choose_filtered_set:
  assumes "well_formed s" and "contracts ci asort s" and "my_arm s = Some a"
    and "choose_filtered s (ci (policy s) s) (top_arms asort (nb_players s) (ci (policy s) s))
         = Inr arms"
  shows "set arms = candidate_set (ucbs s) (ci (policy s) s) a
                      (set (top_arms asort (nb_players s) (ci (policy s) s)))"
proof -
  from assms(1,2) have lo: "length (ucbs s) = nb_arms s"
    and ln: "length (ci (policy s) s) = nb_arms s"
    by (simp_all add: well_formed_def contracts_def)
  from assms(4) have "choice (filter (\<lambda>i. ucbs s ! i \<le> ucbs s ! a
                   \<and> Min ((\<lambda>b. ci (policy s) s ! b)
                          ` set (top_arms asort (nb_players s) (ci (policy s) s)))
                      \<le> ci (policy s) s ! i) [0..<nb_arms s]) = Inr arms"
    by (simp add: choose_filtered_def filtered_candidates_eq [OF assms(1-3)])
  from choice_Inr [OF this] show ?thesis
    by (simp only: set_filtered_candidates [OF lo ln])
qed

lemma ranked_arm:
  assumes wf: "well_formed s" and ct: "contracts ci asort s"
    and c: "c = PlayerRandTopOld \<or> c = PlayerRandTop \<or> c = PlayerMCTop"
    and nz: "\<not> any_zero (nb_draws s)" and arm: "my_arm s = Some a"
    and run: "choose_arm_to_play c ci asort s = Inr outs" and mem: "s' \<in> set outs"
  shows "\<exists>b. my_arm s' = Some b \<and> ucbs s' = ci (policy s) s
           \<and> (b \<in> set (top_arms asort (nb_players s) (ci (policy s) s))
              \<or> b \<in> candidate_set (ucbs s) (ci (policy s) s) a
                        (set (top_arms asort (nb_players s) (ci (policy s) s))))"
proof -
  let ?new = "ci (policy s) s"
  let ?best = "top_arms asort (nb_players s) ?new"
  let ?C = "candidate_set (ucbs s) ?new a (set ?best)"
  note fs = choose_filtered_set [OF wf ct arm]
  have ni: "not_in (my_arm s) ?best \<longleftrightarrow> a \<notin> set ?best" by (simp add: not_in_def arm)
  from c consider "c = PlayerRandTopOld" | "c = PlayerRandTop" | "c = PlayerMCTop" by blast
  then show ?thesis
  proof cases
    case 1
    with run nz have r: "RandTopOld_choose_arm_to_play ci asort s = Inr outs" by simp
    show ?thesis
    proof (cases "a \<in> set ?best")
      case True
      with r nz ni have "outs = [s\<lparr>ucbs := ?new\<rparr>]"
        by (simp add: RandTopOld_choose_arm_to_play_def Let_def)
      with mem True arm show ?thesis by auto
    next
      case out: False
      show ?thesis
      proof (cases "has_collided s")
        case True
        with r nz ni out obtain arms where "choice ?best = Inr arms"
          and outs: "outs = map (\<lambda>a. s\<lparr>my_arm := Some a, ucbs := ?new\<rparr>) arms"
          by (auto simp: RandTopOld_choose_arm_to_play_def Let_def split: sum.splits)
        then have "arms = ?best" using choice_Inr by blast
        with mem outs show ?thesis by auto
      next
        case False
        with r nz ni out obtain arms where cf: "choose_filtered s ?new ?best = Inr arms"
          and outs: "outs = map (\<lambda>a. s\<lparr>my_arm := Some a, ucbs := ?new\<rparr>) arms"
          by (auto simp: RandTopOld_choose_arm_to_play_def Let_def split: sum.splits)
        with mem fs [OF cf] show ?thesis by auto
      qed
    qed
  next
    case 2
    with run nz have r: "RandTop_choose_arm_to_play ci asort s = Inr outs" by simp
    show ?thesis
    proof (cases "a \<in> set ?best")
      case out: False
      with r nz ni obtain arms where cf: "choose_filtered s ?new ?best = Inr arms"
        and outs: "outs = map (\<lambda>a. s\<lparr>my_arm := Some a, ucbs := ?new\<rparr>) arms"
        by (auto simp: RandTop_choose_arm_to_play_def Let_def split: sum.splits)
      with mem fs [OF cf] show ?thesis by auto
    next
      case inn: True
      show ?thesis
      proof (cases "has_collided s")
        case True
        with r nz ni inn obtain arms where "choice ?best = Inr arms"
          and outs: "outs = map (\<lambda>a. s\<lparr>my_arm := Some a, ucbs := ?new\<rparr>) arms"
          by (auto simp: RandTop_choose_arm_to_play_def Let_def split: sum.splits)
        then have "arms = ?best" using choice_Inr by blast
        with mem outs show ?thesis by auto
      next
        case False
        with r nz ni inn have "outs = [s\<lparr>ucbs := ?new\<rparr>]"
          by (simp add: RandTop_choose_arm_to_play_def Let_def)
        with mem inn arm show ?thesis by auto
      qed
    qed
  next
    case 3
    with run nz have r: "MCTop_choose_arm_to_play ci asort s = Inr outs" by simp
    show ?thesis
    proof (cases "a \<in> set ?best")
      case out: False
      with r nz ni obtain arms where cf: "choose_filtered s ?new ?best = Inr arms"
        and outs: "outs = map (\<lambda>a. s\<lparr>my_arm := Some a, is_on_chair := False,
                                        ucbs := ?new\<rparr>) arms"
        by (auto simp: MCTop_choose_arm_to_play_def Let_def split: sum.splits)
      with mem fs [OF cf] show ?thesis by auto
    next
      case inn: True
      show ?thesis
      proof (cases "has_collided s \<and> \<not> is_on_chair s")
        case True
        with r nz ni inn obtain arms where "choice ?best = Inr arms"
          and outs: "outs = map (\<lambda>a. s\<lparr>my_arm := Some a, is_on_chair := False,
                                          ucbs := ?new\<rparr>) arms"
          by (auto simp: MCTop_choose_arm_to_play_def Let_def split: sum.splits)
        then have "arms = ?best" using choice_Inr by blast
        with mem outs show ?thesis by auto
      next
        case False
        with r nz ni inn have "outs = [s\<lparr>is_on_chair := True, ucbs := ?new\<rparr>]"
          by (auto simp: MCTop_choose_arm_to_play_def Let_def)
        with mem inn arm show ?thesis by auto
      qed
    qed
  qed
qed

lemma settled_after_choice:
  assumes wf: "well_formed s" and ct: "contracts ci asort s"
    and len: "\<forall>s'. length (ci (policy s') s') = nb_arms s'"
    and c: "c = PlayerRandTopOld \<or> c = PlayerRandTop \<or> c = PlayerMCTop"
    and nz: "\<not> any_zero (nb_draws s)" and arm: "my_arm s = Some a"
    and run: "choose_arm_to_play c ci asort s = Inr outs" and mem: "s' \<in> set outs"
  shows "settled s'"
proof -
  let ?new = "ci (policy s) s"
  from c have cP: "c \<noteq> Player" by auto
  from wf ct have K: "0 < nb_arms s" and M: "0 < nb_players s"
    and ln: "length ?new = nb_arms s" and srt: "is_argsort (asort ?new) ?new"
    by (auto simp: well_formed_def contracts_def)
  from K ln have ne: "?new \<noteq> []" by auto
  from choose_outcome [OF wf ct len cP run mem]
  have same: "nb_arms s' = nb_arms s" "nb_players s' = nb_players s"
    and val: "\<exists>b < nb_arms s. my_arm s' = Some b" by simp_all
  from ranked_arm [OF wf ct c nz arm run mem] obtain b where
    b: "my_arm s' = Some b" "ucbs s' = ?new"
    and rk: "b \<in> set (take (nb_players s) (rev (asort ?new)))
             \<or> b \<in> candidate_set (ucbs s) ?new a (set (take (nb_players s) (rev (asort ?new))))"
    by (auto simp: top_arms_def)
  from rk have "card {i. i < length ?new \<and> ?new ! b < ?new ! i} < nb_players s"
    using top_arms_rank [OF srt] candidate_rank [OF srt M ne] by blast
  moreover from val b have "b < nb_arms s" by simp
  ultimately show ?thesis
    unfolding settled_def same b(2) using b(1) ln by simp
qed

lemma receive_reward_fields:
  assumes "receive_reward s reward collision = Inr s'" and "my_arm s = Some b"
  shows "ucbs s' = ucbs s \<and> my_arm s' = my_arm s \<and> nb_arms s' = nb_arms s
         \<and> nb_players s' = nb_players s
         \<and> nb_draws s' = (nb_draws s)[b := nb_draws s ! b + 1]"
  using assms by (auto simp: receive_reward_def split: if_splits)

lemma any_zero_update:
  assumes "any_zero (xs[b := xs ! b + 1])"
  shows "any_zero xs"
proof -
  from assms have "0 \<in> set (xs[b := xs ! b + 1])" by (auto simp: any_zero_def list_ex_iff)
  then have "0 \<in> insert (xs ! b + 1) (set xs)"
    using set_update_subset_insert [of xs b "xs ! b + 1"] by blast
  then show ?thesis by (auto simp: any_zero_def list_ex_iff)
qed

lemma round_start_invariant:
  assumes M: "0 < M" and MK: "M \<le> K"
    and len: "\<forall>s. length (ci (policy s) s) = nb_arms s"
    and srt: "\<forall>xs. is_argsort (asort xs) xs"
    and c: "c = PlayerRandTopOld \<or> c = PlayerRandTop \<or> c = PlayerMCTop"
    and "round_start c ci asort K M pol s"
  shows "well_formed s \<and> nb_arms s = K \<and> nb_players s = M
         \<and> (any_zero (nb_draws s) \<longrightarrow> ucbs s = replicate K 0)
         \<and> (\<not> any_zero (nb_draws s) \<longrightarrow> settled s)"
  using assms(6)
proof (induction rule: round_start.induct)
  case fresh
  from M MK have "0 < K" by simp
  then have "any_zero (replicate K (0::nat))" by (cases K) (simp_all add: any_zero_def)
  with M MK show ?case by (simp add: well_formed_def init_def clear_def)
next
  case (played s outs s' reward collision s'')
  from c have cP: "c \<noteq> Player" by auto
  from played.IH have wf: "well_formed s" and K: "nb_arms s = K" and N: "nb_players s = M"
    by simp_all
  have ct: "contracts ci asort s" using len srt by (simp add: contracts_def)
  from choose_outcome [OF wf ct len cP played(2,3)]
  have same: "nb_arms s' = K" "nb_players s' = M" "nb_draws s' = nb_draws s"
    using K N by simp_all
  from choose_outcome [OF wf ct len cP played(2,3)] K
  obtain b where b: "my_arm s' = Some b" "b < K" by auto
  from well_formed_choose [OF wf ct len cP played(2,3)] have wf': "well_formed s'" by simp
  from c played(4) have rr: "receive_reward s' reward collision = Inr s''" by auto
  from well_formed_receive_reward [OF wf' rr] same
  have wf'': "well_formed s''" and K'': "nb_arms s'' = K" by simp_all
  note f = receive_reward_fields [OF rr b(1)]
  have nz'': "\<not> any_zero (nb_draws s'')" if "\<not> any_zero (nb_draws s)"
    using that any_zero_update [of "nb_draws s'" b] f same by auto
  show ?case
  proof (cases "any_zero (nb_draws s)")
    case True
    with played.IH have z: "ucbs s = replicate K 0" by simp
    from c True played(2) have "warm_start s = Inr outs"
      by (auto simp: RandTopOld_choose_arm_to_play_def RandTop_choose_arm_to_play_def
          MCTop_choose_arm_to_play_def)
    from warm_start_outcome [OF this played(3)] have "ucbs s' = ucbs s" by auto
    with z f have z'': "ucbs s'' = replicate K 0" by simp
    have e: "{i. i < K \<and> ucbs s'' ! b < ucbs s'' ! i} = {}"
      using b(2) by (auto simp: z'')
    have m'': "my_arm s'' = Some b" using f b(1) by simp
    have p'': "nb_players s'' = M" using f same by simp
    have "settled s''"
      unfolding settled_def by (rule exI [of _ b]) (simp add: m'' K'' b(2) e p'' M)
    with wf'' K'' z'' f same show ?thesis by simp
  next
    case False
    with played.IH have "settled s" by simp
    then obtain a where a: "my_arm s = Some a" by (auto simp: settled_def)
    from settled_after_choice [OF wf ct len c False a played(2,3)] have "settled s'" .
    then have "settled s''" using f by (simp add: settled_def)
    with wf'' K'' f same nz'' [OF False] show ?thesis by simp
  qed
qed

lemma candidates_never_empty_in_play:
  assumes "0 < M" and "M \<le> K"
    and len: "\<forall>s. length (ci (policy s) s) = nb_arms s"
    and srt: "\<forall>xs. is_argsort (asort xs) xs"
    and "c = PlayerRandTopOld \<or> c = PlayerRandTop \<or> c = PlayerMCTop"
    and "round_start c ci asort K M pol s" and "\<not> any_zero (nb_draws s)"
  shows "\<exists>a. my_arm s = Some a
           \<and> candidate_set (ucbs s) (ci (policy s) s) a
                (set (top_arms asort (nb_players s) (ci (policy s) s))) \<noteq> {}"
proof -
  from round_start_invariant [OF assms(1-6)] assms(7)
  have wf: "well_formed s" and st: "settled s" by simp_all
  from st obtain a where a: "my_arm s = Some a" "a < nb_arms s"
    and few: "card {i. i < nb_arms s \<and> ucbs s ! a < ucbs s ! i} < nb_players s"
    by (auto simp: settled_def)
  from wf have lo: "length (ucbs s) = nb_arms s" by (simp add: well_formed_def)
  from len have ln: "length (ci (policy s) s) = nb_arms s" by simp
  from srt have s: "is_argsort (asort (ci (policy s) s)) (ci (policy s) s)" by simp
  from candidate_set_nonempty [OF s lo ln a(2) few] a(1) show ?thesis
    by (simp add: top_arms_def)
qed

lemma no_raise_in_play:
  assumes "0 < M" and "M \<le> K"
    and len: "\<forall>s. length (ci (policy s) s) = nb_arms s"
    and srt: "\<forall>xs. is_argsort (asort xs) xs"
    and c: "c = PlayerRandTopOld \<or> c = PlayerRandTop \<or> c = PlayerMCTop"
    and rs: "round_start c ci asort K M pol s"
  shows "\<exists>outs. choose_arm_to_play c ci asort s = Inr outs"
proof (cases "any_zero (nb_draws s)")
  case True
  with c show ?thesis
    by (auto simp: RandTopOld_choose_arm_to_play_def RandTop_choose_arm_to_play_def
        MCTop_choose_arm_to_play_def warm_start_eq)
next
  case False
  let ?new = "ci (policy s) s"
  let ?best = "top_arms asort (nb_players s) ?new"
  from round_start_invariant [OF assms(1-6)] have wf: "well_formed s" by simp
  have ct: "contracts ci asort s" using len srt by (simp add: contracts_def)
  from candidates_never_empty_in_play [OF assms False] obtain a where
    a: "my_arm s = Some a" and ne: "candidate_set (ucbs s) ?new a (set ?best) \<noteq> {}" by blast
  from choose_filtered_draw(2) [OF wf ct a refl refl refl ne]
  obtain arms where cf: "choose_filtered s ?new ?best = Inr arms" by blast
  have top: "choice ?best = Inr ?best" by (rule choice_top_arms(1) [OF wf ct refl refl])
  from c consider "c = PlayerRandTopOld" | "c = PlayerRandTop" | "c = PlayerMCTop" by blast
  then show ?thesis
  proof cases
    case 1
    then show ?thesis using False cf top
      by (simp add: RandTopOld_choose_arm_to_play_def Let_def)
  next
    case 2
    then show ?thesis using False cf top
      by (simp add: RandTop_choose_arm_to_play_def Let_def)
  next
    case 3
    then show ?thesis using False cf top
      by (simp add: MCTop_choose_arm_to_play_def Let_def)
  qed
qed

end
